theory Spec2Isabelle
  imports Main
begin

section \<open>Blank-Cache: the policy cache of \<^verbatim>\<open>src/lib/cache.ts\<close>\<close>

text \<open>
  The library is one closure, \<^verbatim>\<open>Cache(option)\<close>, over two JavaScript \<^verbatim>\<open>Map\<close>s
  (\<^verbatim>\<open>cache\<close> and \<^verbatim>\<open>timers\<close>) and the host's table of scheduled timeouts.
  The embedding passes that state explicitly. What the code reads from its environment is
  an argument of the operation that reads it: the UUID returned by
  \<^verbatim>\<open>crypto.randomUUID()\<close>, the clock value returned by \<^verbatim>\<open>Date.now()\<close> (one value
  per call of the API, also for \<^verbatim>\<open>set\<close> under EXPIRE, which reads the clock twice in
  a row) and the handle returned by \<^verbatim>\<open>setTimeout\<close>.
  Numbers are modelled as \<open>int\<close>: counts, ranks, millisecond timestamps and timer handles
  are integers in the code; non-integral or NaN capacities are outside the model.
\<close>

subsection \<open>JavaScript \<^verbatim>\<open>Map\<close> as an insertion-ordered association list\<close>

text \<open>
  A \<^verbatim>\<open>Map\<close> iterates in insertion order; \<^verbatim>\<open>m.set(k, v)\<close> on a present key replaces the
  value in place and on an absent key appends; \<^verbatim>\<open>m.delete(k)\<close> drops the key.
\<close>

primrec Map_get :: "('k \<times> 'a) list \<Rightarrow> 'k \<Rightarrow> 'a option" where
  "Map_get [] k = None"
| "Map_get (p # ps) k = (if fst p = k then Some (snd p) else Map_get ps k)"

primrec Map_set :: "'k \<Rightarrow> 'a \<Rightarrow> ('k \<times> 'a) list \<Rightarrow> ('k \<times> 'a) list" where
  "Map_set k v [] = [(k, v)]"
| "Map_set k v (p # ps) = (if fst p = k then (k, v) # ps else p # Map_set k v ps)"

primrec Map_delete :: "'k \<Rightarrow> ('k \<times> 'a) list \<Rightarrow> ('k \<times> 'a) list" where
  "Map_delete k [] = []"
| "Map_delete k (p # ps) = (if fst p = k then Map_delete k ps else p # Map_delete k ps)"

definition Map_size :: "('k \<times> 'a) list \<Rightarrow> int" where
  "Map_size m = int (length m)"

definition Map_keys :: "('k \<times> 'a) list \<Rightarrow> 'k list" where
  "Map_keys m = map fst m"

text \<open>
  \<^verbatim>\<open>Math.min(...xs)\<close>: the least element, and \<^verbatim>\<open>Infinity\<close> (here \<open>None\<close>) for no
  argument at all.
\<close>

fun Math_min :: "int list \<Rightarrow> int option" where
  "Math_min [] = None"
| "Math_min (x # xs) = Some (fold min xs x)"

text \<open>Truthiness of the two kinds of value the code tests with \<^verbatim>\<open>if (x)\<close> or \<^verbatim>\<open>x && ...\<close>.\<close>

fun truthy_key :: "string option \<Rightarrow> bool" where
  "truthy_key None = False"
| "truthy_key (Some k) = (k \<noteq> [])"

fun truthy_timer :: "int option \<Rightarrow> bool" where
  "truthy_timer None = False"
| "truthy_timer (Some t) = (t \<noteq> 0)"

subsection \<open>Data model\<close>

datatype BoundedType = LRU | LFU | FIFO

text \<open>
  \<^verbatim>\<open>type Option = ExpireOption | NonExpireOption\<close>: the discriminated union of the
  source; the argument of \<open>ExpireOption\<close> is \<^verbatim>\<open>maxAge\<close>, the arguments of
  \<open>NonExpireOption\<close> are \<^verbatim>\<open>max\<close> and \<^verbatim>\<open>type\<close>.
\<close>

datatype Option = ExpireOption int | NonExpireOption int BoundedType

text \<open>\<^verbatim>\<open>expires: number | false\<close> is an \<open>int option\<close>, \<open>None\<close> standing for \<^verbatim>\<open>false\<close>.\<close>

record 'v CacheEntry =
  expires :: "int option"
  content :: 'v
  index :: int
  frequency :: int
  insertedAt :: int

text \<open>
  The closure's variables, and \<open>scheduled\<close>: the host's pending timeouts, each a handle
  with the key its callback deletes.
\<close>

record 'v cache_state =
  option :: Option
  cache :: "(string \<times> 'v CacheEntry) list"
  timers :: "(string \<times> int) list"
  scheduled :: "(int \<times> string) list"

datatype error = ConfigurationError

definition empty_cache :: "Option \<Rightarrow> 'v cache_state" where
  "empty_cache opt = \<lparr>option = opt, cache = [], timers = [], scheduled = []\<rparr>"

text \<open>
  \<^verbatim>\<open>function Cache(option: Option = { max: 10, type: "LRU" })\<close>. The body creates the
  two empty maps and returns the API; it has no \<^verbatim>\<open>throw\<close>, so the result is never
  \<open>Inl\<close>.
\<close>

definition Cache :: "Option option \<Rightarrow> error + 'v cache_state" where
  "Cache arg =
     (let opt = (case arg of None \<Rightarrow> NonExpireOption 10 LRU | Some x \<Rightarrow> x)
      in Inr (empty_cache opt))"

subsection \<open>Victim selection\<close>

definition get_lru_key :: "(string \<times> 'v CacheEntry) list \<Rightarrow> string option" where
  "get_lru_key c =
     (let maxIndex = Map_size c - 1
      in map_option fst (find (\<lambda>(key, v). index v = maxIndex) c))"

definition get_lfu_key :: "(string \<times> 'v CacheEntry) list \<Rightarrow> string option" where
  "get_lfu_key c =
     (let minFrequency = Math_min (map (\<lambda>(key, v). frequency v) c)
      in map_option fst (find (\<lambda>(key, v). Some (frequency v) = minFrequency) c))"

definition get_fifo_key :: "(string \<times> 'v CacheEntry) list \<Rightarrow> string option" where
  "get_fifo_key c =
     (let minInsertedAt = Math_min (map (\<lambda>(key, v). insertedAt v) c)
      in map_option fst (find (\<lambda>(key, v). Some (insertedAt v) = minInsertedAt) c))"

subsection \<open>Bookkeeping on read\<close>

text \<open>
  Each \<^verbatim>\<open>for (const [key, value] of cache)\<close> loop only overwrites the entry it is
  visiting, so it visits exactly the entries present when it starts: a fold over them.
\<close>

definition update_lru_entries ::
  "string \<Rightarrow> (string \<times> 'v CacheEntry) list \<Rightarrow> (string \<times> 'v CacheEntry) list" where
  "update_lru_entries keyUnique c =
     fold (\<lambda>(key, v) acc.
             if keyUnique = key then Map_set key (v\<lparr>index := 0\<rparr>) acc
             else Map_set key (v\<lparr>index := index v + 1\<rparr>) acc) c c"

definition update_lfu_entries ::
  "string \<Rightarrow> (string \<times> 'v CacheEntry) list \<Rightarrow> (string \<times> 'v CacheEntry) list" where
  "update_lfu_entries keyUnique c =
     fold (\<lambda>(key, v) acc.
             if keyUnique = key then Map_set key (v\<lparr>frequency := frequency v + 1\<rparr>) acc
             else acc) c c"

definition update_fifo_entries ::
  "string \<Rightarrow> int \<Rightarrow> (string \<times> 'v CacheEntry) list \<Rightarrow> (string \<times> 'v CacheEntry) list" where
  "update_fifo_entries keyUnique now c =
     fold (\<lambda>(key, v) acc.
             if keyUnique = key then Map_set key (v\<lparr>insertedAt := now\<rparr>) acc
             else acc) c c"

subsection \<open>Timers\<close>

text \<open>\<^verbatim>\<open>clearTimeout(id)\<close> takes the timeout with that handle out of the host's table.\<close>

definition clearTimeout :: "int \<Rightarrow> (int \<times> string) list \<Rightarrow> (int \<times> string) list" where
  "clearTimeout timerId sch = filter (\<lambda>(i, key). i \<noteq> timerId) sch"

text \<open>
  The block that \<^verbatim>\<open>get\<close>, \<^verbatim>\<open>has\<close>, \<^verbatim>\<open>remove\<close> and \<^verbatim>\<open>size\<close> all contain:
  \<^verbatim>\<open>const timerId = timers.get(key);
  if (timerId) { clearTimeout(timerId); timers.delete(key); }\<close>
\<close>

definition clear_timer :: "string \<Rightarrow> 'v cache_state \<Rightarrow> 'v cache_state" where
  "clear_timer key s =
     (let timerId = Map_get (timers s) key
      in if truthy_timer timerId
         then s\<lparr>timers := Map_delete key (timers s),
                 scheduled := clearTimeout (the timerId) (scheduled s)\<rparr>
         else s)"

text \<open>
  The callback \<^verbatim>\<open>() => { cache.delete(key); timers.delete(key); }\<close> of the timeout with
  handle \<open>timerId\<close>, run by the host; a handle that is not pending runs nothing.
\<close>

definition timer_fires :: "int \<Rightarrow> 'v cache_state \<Rightarrow> 'v cache_state" where
  "timer_fires timerId s =
     (case Map_get (scheduled s) timerId of
        None \<Rightarrow> s
      | Some key \<Rightarrow>
          s\<lparr>cache := Map_delete key (cache s),
            timers := Map_delete key (timers s),
            scheduled := Map_delete timerId (scheduled s)\<rparr>)"

subsection \<open>The API\<close>

text \<open>The test of \<^verbatim>\<open>get\<close>, \<^verbatim>\<open>has\<close> and \<^verbatim>\<open>size\<close> for a lapsed entry.\<close>

definition lapsed :: "int \<Rightarrow> 'v CacheEntry \<Rightarrow> bool" where
  "lapsed now e = (case expires e of None \<Rightarrow> False | Some t \<Rightarrow> now > t)"

definition is_expire :: "Option \<Rightarrow> bool" where
  "is_expire opt = (case opt of ExpireOption maxAge \<Rightarrow> True | NonExpireOption m t \<Rightarrow> False)"

text \<open>\<^verbatim>\<open>get(key)\<close>; \<open>None\<close> is \<^verbatim>\<open>undefined\<close>.\<close>

definition get :: "'v cache_state \<Rightarrow> string \<Rightarrow> int \<Rightarrow> 'v option \<times> 'v cache_state" where
  "get s key now =
     (case Map_get (cache s) key of
        None \<Rightarrow> (None, s)
      | Some cacheEntry \<Rightarrow>
          if is_expire (option s) \<and> lapsed now cacheEntry
          then (None, clear_timer key (s\<lparr>cache := Map_delete key (cache s)\<rparr>))
          else
            (Some (content cacheEntry),
             (case option s of
                NonExpireOption m LRU \<Rightarrow> s\<lparr>cache := update_lru_entries key (cache s)\<rparr>
              | NonExpireOption m LFU \<Rightarrow> s\<lparr>cache := update_lfu_entries key (cache s)\<rparr>
              | NonExpireOption m FIFO \<Rightarrow> s\<lparr>cache := update_fifo_entries key now (cache s)\<rparr>
              | ExpireOption maxAge \<Rightarrow> s)))"

text \<open>
  \<^verbatim>\<open>set(value)\<close>, with the generated \<open>key\<close>, the clock and the handle that
  \<^verbatim>\<open>setTimeout\<close> returns (read only under EXPIRE). It returns the key.
\<close>

definition new_entry :: "int option \<Rightarrow> 'v \<Rightarrow> int \<Rightarrow> 'v CacheEntry" where
  "new_entry ex v now = \<lparr>expires = ex, content = v, index = 0, frequency = 0, insertedAt = now\<rparr>"

text \<open>
  The eviction step the three bounded branches of \<^verbatim>\<open>set\<close> share:
  \<^verbatim>\<open>if (victim && cache.size >= option.max) { cache.delete(victim); }\<close>
\<close>

definition evict_if_full ::
  "string option \<Rightarrow> int \<Rightarrow> (string \<times> 'v CacheEntry) list \<Rightarrow> (string \<times> 'v CacheEntry) list" where
  "evict_if_full victim m c =
     (if truthy_key victim \<and> Map_size c \<ge> m then Map_delete (the victim) c else c)"

definition set_cache ::
  "'v cache_state \<Rightarrow> 'v \<Rightarrow> string \<Rightarrow> int \<Rightarrow> int \<Rightarrow> string \<times> 'v cache_state" where
  "set_cache s v key now timerId =
     (key,
      (case option s of
         NonExpireOption m LRU \<Rightarrow>
           (let lru_key = get_lru_key (cache s);
                c1 = evict_if_full lru_key m (cache s);
                c2 = fold (\<lambda>(k, e) acc. Map_set k (e\<lparr>index := index e + 1\<rparr>) acc) c1 c1
            in s\<lparr>cache := Map_set key (new_entry None v now) c2\<rparr>)
       | NonExpireOption m LFU \<Rightarrow>
           (let lfu_key = get_lfu_key (cache s);
                c1 = evict_if_full lfu_key m (cache s)
            in s\<lparr>cache := Map_set key (new_entry None v now) c1\<rparr>)
       | NonExpireOption m FIFO \<Rightarrow>
           (let fifo_key = get_fifo_key (cache s);
                c1 = evict_if_full fifo_key m (cache s)
            in s\<lparr>cache := Map_set key (new_entry None v now) c1\<rparr>)
       | ExpireOption maxAge \<Rightarrow>
           s\<lparr>cache := Map_set key (new_entry (Some (now + maxAge)) v now) (cache s),
             timers := Map_set key timerId (timers s),
             scheduled := Map_set timerId key (scheduled s)\<rparr>))"

definition clear :: "'v cache_state \<Rightarrow> 'v cache_state" where
  "clear s =
     (let s1 = (if is_expire (option s)
                then s\<lparr>scheduled := fold (\<lambda>(key, timerId) sch. clearTimeout timerId sch)
                                          (timers s) (scheduled s),
                        timers := []\<rparr>
                else s)
      in s1\<lparr>cache := []\<rparr>)"

definition remove :: "'v cache_state \<Rightarrow> string \<Rightarrow> 'v cache_state" where
  "remove s key =
     (let s1 = (if is_expire (option s) then clear_timer key s else s)
      in s1\<lparr>cache := Map_delete key (cache s1)\<rparr>)"

definition has :: "'v cache_state \<Rightarrow> string \<Rightarrow> int \<Rightarrow> bool \<times> 'v cache_state" where
  "has s key now =
     (case Map_get (cache s) key of
        None \<Rightarrow> (False, s)
      | Some entry \<Rightarrow>
          if is_expire (option s) \<and> lapsed now entry
          then (False, clear_timer key (s\<lparr>cache := Map_delete key (cache s)\<rparr>))
          else (True, s))"

text \<open>
  The body of the sweep of \<^verbatim>\<open>size()\<close> for one entry. Deleting the entry being visited
  does not disturb the iteration of a \<^verbatim>\<open>Map\<close>, so the sweep is a fold over the entries
  present when it starts.
\<close>

definition sweep_entry :: "int \<Rightarrow> string \<times> 'v CacheEntry \<Rightarrow> 'v cache_state \<Rightarrow> 'v cache_state" where
  "sweep_entry now p s =
     (case p of (key, entry) \<Rightarrow>
        if lapsed now entry
        then clear_timer key (s\<lparr>cache := Map_delete key (cache s)\<rparr>)
        else s)"

definition size_cache :: "'v cache_state \<Rightarrow> int \<Rightarrow> int \<times> 'v cache_state" where
  "size_cache s now =
     (let s1 = (if is_expire (option s) then fold (sweep_entry now) (cache s) s else s)
      in (Map_size (cache s1), s1))"

definition get_state_of_cache :: "'v cache_state \<Rightarrow> (string \<times> 'v CacheEntry) list" where
  "get_state_of_cache s = cache s"

subsection \<open>Sequences of calls\<close>

text \<open>
  One event of a run: a call of the API with what it reads from the environment, or the
  host running the callback of a pending timeout.
\<close>

datatype 'v event =
    Do_set 'v string int int
  | Do_get string int
  | Do_has string int
  | Do_remove string
  | Do_clear
  | Do_size int
  | Timer_fires int

fun step :: "'v event \<Rightarrow> 'v cache_state \<Rightarrow> 'v cache_state" where
  "step (Do_set v key now timerId) s = snd (set_cache s v key now timerId)"
| "step (Do_get key now) s = snd (get s key now)"
| "step (Do_has key now) s = snd (has s key now)"
| "step (Do_remove key) s = remove s key"
| "step Do_clear s = clear s"
| "step (Do_size now) s = snd (size_cache s now)"
| "step (Timer_fires timerId) s = timer_fires timerId s"

fun run :: "'v event list \<Rightarrow> 'v cache_state \<Rightarrow> 'v cache_state" where
  "run [] s = s"
| "run (e # es) s = run es (step e s)"

definition ranks :: "'v cache_state \<Rightarrow> int list" where
  "ranks s = map (\<lambda>(key, v). index v) (cache s)"

subsection \<open>Properties stated by the specification\<close>

text \<open>
  The LRU invariant of the specification: the ranks of the live entries are exactly
  \<open>0, ..., n - 1\<close>, each once.
\<close>

definition rank_permutation :: "'v cache_state \<Rightarrow> bool" where
  "rank_permutation s = (sort (ranks s) = map int [0..<length (cache s)])"

text \<open>
  The specification's notion of a consistent configuration: a positive capacity for
  LRU, LFU and FIFO, a positive duration for EXPIRE.
\<close>

definition consistent_config :: "Option \<Rightarrow> bool" where
  "consistent_config opt =
     (case opt of ExpireOption maxAge \<Rightarrow> 0 < maxAge | NonExpireOption m t \<Rightarrow> 0 < m)"

text \<open>No entry carries an expiry time.\<close>

definition no_expiry :: "'v cache_state \<Rightarrow> bool" where
  "no_expiry s = (\<forall>p \<in> set (cache s). expires (snd p) = None)"

text \<open>The keys of the lapsed entries of a list of entries.\<close>

definition lapsed_keys :: "int \<Rightarrow> (string \<times> 'v CacheEntry) list \<Rightarrow> string set" where
  "lapsed_keys now xs = fst ` {q \<in> set xs. lapsed now (snd q)}"

text \<open>The key that \<^verbatim>\<open>crypto.randomUUID()\<close> hands to a \<^verbatim>\<open>set\<close> is a non-empty string.\<close>

fun uuid_key :: "'v event \<Rightarrow> bool" where
  "uuid_key (Do_set v key now timerId) = (key \<noteq> [])"
| "uuid_key (Do_get key now) = True"
| "uuid_key (Do_has key now) = True"
| "uuid_key (Do_remove key) = True"
| "uuid_key Do_clear = True"
| "uuid_key (Do_size now) = True"
| "uuid_key (Timer_fires timerId) = True"

text \<open>The keys are non-empty and the entries are at most \<open>m\<close>.\<close>

definition within_capacity :: "int \<Rightarrow> 'v cache_state \<Rightarrow> bool" where
  "within_capacity m s = ([] \<notin> fst ` set (cache s) \<and> Map_size (cache s) \<le> m)"

section \<open>Facts about the map operations\<close>

lemma Map_delete_filter: "Map_delete k m = filter (\<lambda>p. fst p \<noteq> k) m"
  by (induction m) auto

lemma Map_get_delete:
  "Map_get (Map_delete k m) k' = (if k' = k then None else Map_get m k')"
  by (induction m) auto

lemma Map_get_None_iff: "Map_get m k = None \<longleftrightarrow> k \<notin> fst ` set m"
  by (induction m) auto

lemma Map_delete_absent: "Map_get m k = None \<Longrightarrow> Map_delete k m = m"
  by (induction m) (auto split: if_splits)

lemma Map_set_fresh: "k \<notin> fst ` set m \<Longrightarrow> Map_set k v m = m @ [(k, v)]"
  by (induction m) auto

lemma Map_set_keys: "k \<in> fst ` set m \<Longrightarrow> map fst (Map_set k v m) = map fst m"
  by (induction m) auto

lemma cache_clear_timer [simp]: "cache (clear_timer k s) = cache s"
  by (simp add: clear_timer_def Let_def)

lemma option_clear_timer [simp]: "option (clear_timer k s) = option s"
  by (simp add: clear_timer_def Let_def)

lemma cache_remove: "cache (remove s k) = Map_delete k (cache s)"
  by (simp add: remove_def Let_def)

subsection \<open>Sets of entries, timers, loops over the entries\<close>

lemma set_Map_delete: "set (Map_delete k m) \<subseteq> set m"
  by (induction m) auto

lemma set_Map_set: "set (Map_set k v m) \<subseteq> insert (k, v) (set m)"
  by (induction m) auto

lemma timers_clear_timer:
  "Map_get (timers s) k \<noteq> Some 0 \<Longrightarrow>
   Map_get (timers (clear_timer k s)) k' = (if k' = k then None else Map_get (timers s) k')"
  by (cases "Map_get (timers s) k") (auto simp: clear_timer_def Let_def Map_get_delete)

lemma fst_clearTimeout: "t \<notin> fst ` set (clearTimeout t sch)"
  by (auto simp: clearTimeout_def)

lemma scheduled_clear_timer:
  "Map_get (timers s) k = Some t \<Longrightarrow> t \<noteq> 0 \<Longrightarrow> t \<notin> fst ` set (scheduled (clear_timer k s))"
  by (simp add: clear_timer_def Let_def fst_clearTimeout)

lemma scheduled_clear_timer_subset: "set (scheduled (clear_timer k s)) \<subseteq> set (scheduled s)"
  by (auto simp: clear_timer_def Let_def clearTimeout_def)

lemma option_get [simp]: "option (snd (get s key now)) = option s"
  by (simp add: get_def split: option.splits Option.splits BoundedType.splits)

lemma option_has [simp]: "option (snd (has s key now)) = option s"
  by (simp add: has_def split: option.splits)

lemma option_set_cache [simp]: "option (snd (set_cache s v key now t)) = option s"
proof (cases "option s")
  case (ExpireOption a)
  then show ?thesis by (simp add: set_cache_def)
next
  case (NonExpireOption m b)
  then show ?thesis by (cases b) (simp_all add: set_cache_def Let_def)
qed

lemma option_remove [simp]: "option (remove s key) = option s"
  by (simp add: remove_def Let_def)

lemma option_clear [simp]: "option (clear s) = option s"
  by (simp add: clear_def Let_def)

lemma option_timer_fires [simp]: "option (timer_fires t s) = option s"
  by (simp add: timer_fires_def split: option.splits)

lemma size_cache_bounded:
  "\<not> is_expire (option s) \<Longrightarrow> size_cache s now = (Map_size (cache s), s)"
  by (simp add: size_cache_def)

lemma option_step_bounded:
  "\<not> is_expire (option s) \<Longrightarrow> option (step ev s) = option s"
  by (cases ev) (simp_all add: size_cache_bounded)

lemma all_Map_delete:
  "\<forall>p \<in> set m. P p \<Longrightarrow> \<forall>p \<in> set (Map_delete k m). P p"
  using set_Map_delete by fastforce

lemma all_Map_set:
  "\<forall>p \<in> set m. P p \<Longrightarrow> P (k, v) \<Longrightarrow> \<forall>p \<in> set (Map_set k v m). P p"
  using set_Map_set [of k v m] by auto

lemma Map_set_append_hit:
  "k \<notin> fst ` set ds \<Longrightarrow> Map_set k v' (ds @ (k, v) # xs) = ds @ (k, v') # xs"
  by (induction ds) auto

lemma fold_entries_pred:
  fixes body :: "'k \<times> 'a \<Rightarrow> ('k \<times> 'a) list \<Rightarrow> ('k \<times> 'a) list"
  assumes "\<forall>p \<in> set acc. P (snd p)" and "\<forall>p \<in> set xs. P (snd p)"
    and body: "\<And>k v a. body (k, v) a = a \<or> (\<exists>v'. body (k, v) a = Map_set k v' a \<and> (P v \<longrightarrow> P v'))"
  shows "\<forall>p \<in> set (fold body xs acc). P (snd p)"
  using assms(1,2)
proof (induction xs arbitrary: acc)
  case Nil
  then show ?case by simp
next
  case (Cons x xs)
  obtain k v where x: "x = (k, v)" by (cases x)
  have "P v" using Cons.prems(2) x by simp
  have "\<forall>p \<in> set (body x acc). P (snd p)"
  proof (rule disjE [OF body [of k v acc]])
    assume "body (k, v) acc = acc"
    then show ?thesis using Cons.prems(1) x by simp
  next
    assume "\<exists>v'. body (k, v) acc = Map_set k v' acc \<and> (P v \<longrightarrow> P v')"
    then obtain v' where v': "body (k, v) acc = Map_set k v' acc" "P v'"
      using \<open>P v\<close> by blast
    show ?thesis
      unfolding x v'(1) using Cons.prems(1) v'(2)
      by (intro all_Map_set) simp_all
  qed
  then show ?case using Cons.IH Cons.prems(2) by simp
qed

lemma fold_entries_keys:
  fixes body :: "'k \<times> 'a \<Rightarrow> ('k \<times> 'a) list \<Rightarrow> ('k \<times> 'a) list"
  assumes "fst ` set xs \<subseteq> fst ` set acc"
    and body: "\<And>k v a. body (k, v) a = a \<or> (\<exists>v'. body (k, v) a = Map_set k v' a)"
  shows "map fst (fold body xs acc) = map fst acc"
  using assms(1)
proof (induction xs arbitrary: acc)
  case Nil
  then show ?case by simp
next
  case (Cons x xs)
  obtain k v where x: "x = (k, v)" by (cases x)
  have k: "k \<in> fst ` set acc" using Cons.prems x by auto
  have m: "map fst (body x acc) = map fst acc"
    using body [of k v acc] Map_set_keys [OF k] unfolding x by auto
  then have "fst ` set (body x acc) = fst ` set acc"
    by (metis list.set_map)
  then have "map fst (fold body xs (body x acc)) = map fst (body x acc)"
    using Cons.IH [of "body x acc"] Cons.prems by auto
  then show ?case using m by simp
qed

lemma fold_entries_map:
  fixes body :: "'k \<times> 'a \<Rightarrow> ('k \<times> 'a) list \<Rightarrow> ('k \<times> 'a) list"
  assumes "distinct (map fst (ds @ xs))"
    and body: "\<And>k v a. body (k, v) a = Map_set k (g k v) a \<or> (body (k, v) a = a \<and> g k v = v)"
  shows "fold body xs (ds @ xs) = ds @ map (\<lambda>(k, v). (k, g k v)) xs"
  using assms(1)
proof (induction xs arbitrary: ds)
  case Nil
  then show ?case by simp
next
  case (Cons x xs)
  obtain k v where x: "x = (k, v)" by (cases x)
  have k: "k \<notin> fst ` set ds" using Cons.prems x by auto
  have b: "body x (ds @ x # xs) = (ds @ [(k, g k v)]) @ xs"
    using body [of k v "ds @ (k, v) # xs"] Map_set_append_hit [OF k] unfolding x by auto
  have d: "distinct (map fst ((ds @ [(k, g k v)]) @ xs))"
    using Cons.prems x by auto
  show ?case
    using Cons.IH [OF d] b x by simp
qed

lemma update_lru_entries_map:
  "distinct (map fst c) \<Longrightarrow>
   update_lru_entries keyUnique c =
     map (\<lambda>(key, v). (key, if keyUnique = key then v\<lparr>index := 0\<rparr> else v\<lparr>index := index v + 1\<rparr>)) c"
  unfolding update_lru_entries_def
  using fold_entries_map [of "[]" c _ "\<lambda>key v. if keyUnique = key then v\<lparr>index := 0\<rparr> else v\<lparr>index := index v + 1\<rparr>"]
  by simp

lemma update_lfu_entries_map:
  "distinct (map fst c) \<Longrightarrow>
   update_lfu_entries keyUnique c =
     map (\<lambda>(key, v). (key, if keyUnique = key then v\<lparr>frequency := frequency v + 1\<rparr> else v)) c"
  unfolding update_lfu_entries_def
  using fold_entries_map [of "[]" c _ "\<lambda>key v. if keyUnique = key then v\<lparr>frequency := frequency v + 1\<rparr> else v"]
  by simp

lemma update_fifo_entries_map:
  "distinct (map fst c) \<Longrightarrow>
   update_fifo_entries keyUnique now c =
     map (\<lambda>(key, v). (key, if keyUnique = key then v\<lparr>insertedAt := now\<rparr> else v)) c"
  unfolding update_fifo_entries_def
  using fold_entries_map [of "[]" c _ "\<lambda>key v. if keyUnique = key then v\<lparr>insertedAt := now\<rparr> else v"]
  by simp

lemma set_loop_map:
  "distinct (map fst c) \<Longrightarrow>
   fold (\<lambda>(k, e) acc. Map_set k (e\<lparr>index := index e + 1\<rparr>) acc) c c =
     map (\<lambda>(k, e). (k, e\<lparr>index := index e + 1\<rparr>)) c"
  using fold_entries_map [of "[]" c _ "\<lambda>k e. e\<lparr>index := index e + 1\<rparr>"]
  by simp

subsection \<open>The bounded policies never set an expiry time\<close>

lemma no_expiry_update_lru:
  assumes "\<forall>p \<in> set c. expires (snd p) = None"
  shows "\<forall>p \<in> set (update_lru_entries k c). expires (snd p) = None"
  unfolding update_lru_entries_def
  by (rule fold_entries_pred [where P = "\<lambda>e. expires e = None"]) (use assms in auto)

lemma no_expiry_update_lfu:
  assumes "\<forall>p \<in> set c. expires (snd p) = None"
  shows "\<forall>p \<in> set (update_lfu_entries k c). expires (snd p) = None"
  unfolding update_lfu_entries_def
  by (rule fold_entries_pred [where P = "\<lambda>e. expires e = None"]) (use assms in auto)

lemma no_expiry_update_fifo:
  assumes "\<forall>p \<in> set c. expires (snd p) = None"
  shows "\<forall>p \<in> set (update_fifo_entries k now c). expires (snd p) = None"
  unfolding update_fifo_entries_def
  by (rule fold_entries_pred [where P = "\<lambda>e. expires e = None"]) (use assms in auto)

lemma no_expiry_set_loop:
  assumes "\<forall>p \<in> set c. expires (snd p) = None"
  shows "\<forall>p \<in> set (fold (\<lambda>(k, e) acc. Map_set k (e\<lparr>index := index e + 1\<rparr>) acc) c c).
           expires (snd p) = None"
  by (rule fold_entries_pred [where P = "\<lambda>e. expires e = None"]) (use assms in auto)

lemma get_absent: "Map_get (cache s) key = None \<Longrightarrow> get s key now = (None, s)"
  by (simp add: get_def)

lemma get_LRU:
  "option s = NonExpireOption m LRU \<Longrightarrow> Map_get (cache s) key = Some e \<Longrightarrow>
   get s key now = (Some (content e), s\<lparr>cache := update_lru_entries key (cache s)\<rparr>)"
  by (simp add: get_def is_expire_def)

lemma get_LFU:
  "option s = NonExpireOption m LFU \<Longrightarrow> Map_get (cache s) key = Some e \<Longrightarrow>
   get s key now = (Some (content e), s\<lparr>cache := update_lfu_entries key (cache s)\<rparr>)"
  by (simp add: get_def is_expire_def)

lemma get_FIFO:
  "option s = NonExpireOption m FIFO \<Longrightarrow> Map_get (cache s) key = Some e \<Longrightarrow>
   get s key now = (Some (content e), s\<lparr>cache := update_fifo_entries key now (cache s)\<rparr>)"
  by (simp add: get_def is_expire_def)

lemma no_expiry_get:
  assumes "\<not> is_expire (option s)" and "no_expiry s"
  shows "no_expiry (snd (get s key now))"
proof (cases "Map_get (cache s) key")
  case None
  then show ?thesis using assms(2) by (simp add: get_absent)
next
  case (Some e)
  have c: "\<forall>p \<in> set (cache s). expires (snd p) = None"
    using assms(2) by (simp add: no_expiry_def)
  show ?thesis
  proof (cases "option s")
    case (ExpireOption a)
    then show ?thesis using assms(1) by (simp add: is_expire_def)
  next
    case (NonExpireOption m b)
    show ?thesis
    proof (cases b)
      case LRU
      show ?thesis
        unfolding get_LRU [OF NonExpireOption [unfolded LRU] Some] no_expiry_def
        using no_expiry_update_lru [OF c] by simp
    next
      case LFU
      show ?thesis
        unfolding get_LFU [OF NonExpireOption [unfolded LFU] Some] no_expiry_def
        using no_expiry_update_lfu [OF c] by simp
    next
      case FIFO
      show ?thesis
        unfolding get_FIFO [OF NonExpireOption [unfolded FIFO] Some] no_expiry_def
        using no_expiry_update_fifo [OF c] by simp
    qed
  qed
qed

lemma all_evict_if_full:
  assumes that: "\<forall>p \<in> set c. P p"
  shows "\<forall>p \<in> set (evict_if_full k m c). P p"
proof (cases "truthy_key k \<and> Map_size c \<ge> m")
  case True
  then have "evict_if_full k m c = Map_delete (the k) c" by (simp add: evict_if_full_def)
  then show ?thesis using all_Map_delete [of c P "the k"] that by simp
next
  case False
  then have "evict_if_full k m c = c" by (auto simp add: evict_if_full_def)
  then show ?thesis using that by simp
qed

lemma cache_set_cache_LRU:
  "option s = NonExpireOption m LRU \<Longrightarrow>
   cache (snd (set_cache s v key now t)) =
     Map_set key (new_entry None v now)
       (fold (\<lambda>(k, e) acc. Map_set k (e\<lparr>index := index e + 1\<rparr>) acc)
          (evict_if_full (get_lru_key (cache s)) m (cache s))
          (evict_if_full (get_lru_key (cache s)) m (cache s)))"
  by (simp add: set_cache_def Let_def)

lemma cache_set_cache_LFU:
  "option s = NonExpireOption m LFU \<Longrightarrow>
   cache (snd (set_cache s v key now t)) =
     Map_set key (new_entry None v now) (evict_if_full (get_lfu_key (cache s)) m (cache s))"
  by (simp add: set_cache_def Let_def)

lemma cache_set_cache_FIFO:
  "option s = NonExpireOption m FIFO \<Longrightarrow>
   cache (snd (set_cache s v key now t)) =
     Map_set key (new_entry None v now) (evict_if_full (get_fifo_key (cache s)) m (cache s))"
  by (simp add: set_cache_def Let_def)

lemma no_expiry_set_cache:
  assumes "\<not> is_expire (option s)" and "no_expiry s"
  shows "no_expiry (snd (set_cache s v key now t))"
proof (cases "option s")
  case (ExpireOption a)
  then show ?thesis using assms(1) by (simp add: is_expire_def)
next
  case (NonExpireOption m b)
  have c: "\<forall>p \<in> set (cache s). expires (snd p) = None"
    using assms(2) by (simp add: no_expiry_def)
  have n: "expires (snd (key, new_entry None v now)) = None"
    by (simp add: new_entry_def)
  show ?thesis
  proof (cases b)
    case LRU
    show ?thesis
      unfolding no_expiry_def cache_set_cache_LRU [OF NonExpireOption [unfolded LRU]]
      by (intro all_Map_set no_expiry_set_loop all_evict_if_full c n)
  next
    case LFU
    show ?thesis
      unfolding no_expiry_def cache_set_cache_LFU [OF NonExpireOption [unfolded LFU]]
      by (intro all_Map_set all_evict_if_full c n)
  next
    case FIFO
    show ?thesis
      unfolding no_expiry_def cache_set_cache_FIFO [OF NonExpireOption [unfolded FIFO]]
      by (intro all_Map_set all_evict_if_full c n)
  qed
qed

lemma no_expiry_step:
  assumes "\<not> is_expire (option s)" and "no_expiry s"
  shows "no_expiry (step ev s)"
proof (cases ev)
  case (Do_set v key now t)
  then show ?thesis using no_expiry_set_cache [OF assms] by simp
next
  case (Do_get key now)
  then show ?thesis using no_expiry_get [OF assms] by simp
next
  case (Do_has key now)
  then show ?thesis using assms by (simp add: has_def split: option.splits)
next
  case (Do_remove key)
  then show ?thesis
    using assms all_Map_delete [of "cache s" "\<lambda>p. expires (snd p) = None" key]
    by (simp add: remove_def no_expiry_def)
next
  case Do_clear
  then show ?thesis by (simp add: clear_def no_expiry_def Let_def)
next
  case (Do_size now)
  then show ?thesis using assms by (simp add: size_cache_bounded)
next
  case (Timer_fires t)
  then show ?thesis
    using assms(2) all_Map_delete [of "cache s" "\<lambda>p. expires (snd p) = None"]
    by (simp add: timer_fires_def no_expiry_def split: option.splits)
qed

lemma no_expiry_run:
  "\<not> is_expire (option s) \<Longrightarrow> no_expiry s \<Longrightarrow> no_expiry (run es s)"
proof (induction es arbitrary: s)
  case Nil
  then show ?case by simp
next
  case (Cons ev es)
  then show ?case
    using no_expiry_step [of s ev] option_step_bounded [of s ev] by simp
qed

lemma keys_get_bounded:
  assumes "\<not> is_expire (option s)"
  shows "Map_keys (cache (snd (get s key now))) = Map_keys (cache s)"
proof (cases "Map_get (cache s) key")
  case None
  then show ?thesis by (simp add: get_absent)
next
  case (Some e)
  have l: "map fst (update_lru_entries key (cache s)) = map fst (cache s)"
    unfolding update_lru_entries_def by (rule fold_entries_keys) auto
  have f: "map fst (update_lfu_entries key (cache s)) = map fst (cache s)"
    unfolding update_lfu_entries_def by (rule fold_entries_keys) auto
  have i: "map fst (update_fifo_entries key now (cache s)) = map fst (cache s)"
    unfolding update_fifo_entries_def by (rule fold_entries_keys) auto
  show ?thesis
  proof (cases "option s")
    case (ExpireOption a)
    then show ?thesis using assms by (simp add: is_expire_def)
  next
    case (NonExpireOption m b)
    show ?thesis
    proof (cases b)
      case LRU
      show ?thesis
        unfolding get_LRU [OF NonExpireOption [unfolded LRU] Some] Map_keys_def
        using l by simp
    next
      case LFU
      show ?thesis
        unfolding get_LFU [OF NonExpireOption [unfolded LFU] Some] Map_keys_def
        using f by simp
    next
      case FIFO
      show ?thesis
        unfolding get_FIFO [OF NonExpireOption [unfolded FIFO] Some] Map_keys_def
        using i by simp
    qed
  qed
qed

subsection \<open>The victim of LFU and FIFO: the first entry of least measure\<close>

lemma fold_min_least:
  "fold min xs (a :: int) \<le> a \<and> (\<forall>x \<in> set xs. fold min xs a \<le> x)
   \<and> (fold min xs a = a \<or> fold min xs a \<in> set xs)"
proof (induction xs arbitrary: a)
  case Nil
  then show ?case by simp
next
  case (Cons x xs)
  from Cons.IH [of "min x a"] show ?case by (auto simp: min_def split: if_splits)
qed

lemma Math_min_least:
  assumes "Math_min xs = Some m"
  shows "m \<in> set xs \<and> (\<forall>x \<in> set xs. m \<le> x)"
proof (cases xs)
  case Nil
  then show ?thesis using assms by simp
next
  case (Cons a as)
  then have m: "m = fold min as a" using assms by simp
  show ?thesis unfolding Cons m using fold_min_least [of as a] by auto
qed

lemma Math_min_nonempty: "xs \<noteq> [] \<Longrightarrow> \<exists>m. Math_min xs = Some m"
  by (cases xs) simp_all

lemma find_split:
  "find P xs = Some x \<Longrightarrow> \<exists>pre post. xs = pre @ x # post \<and> P x \<and> (\<forall>y \<in> set pre. \<not> P y)"
proof (induction xs)
  case Nil
  then show ?case by simp
next
  case (Cons a xs)
  show ?case
  proof (cases "P a")
    case True
    then have "a = x" using Cons.prems by simp
    then have "a # xs = [] @ x # xs \<and> P x \<and> (\<forall>y \<in> set []. \<not> P y)" using True by simp
    then show ?thesis by blast
  next
    case False
    then have "find P xs = Some x" using Cons.prems by simp
    then obtain pre post where "xs = pre @ x # post" "P x" "\<forall>y \<in> set pre. \<not> P y"
      using Cons.IH by blast
    then have "a # xs = (a # pre) @ x # post \<and> P x \<and> (\<forall>y \<in> set (a # pre). \<not> P y)"
      using False by simp
    then show ?thesis by blast
  qed
qed

lemma find_exists: "x \<in> set xs \<Longrightarrow> P x \<Longrightarrow> \<exists>y. find P xs = Some y"
  by (induction xs) auto

lemma first_least_victim:
  fixes c :: "(string \<times> 'v CacheEntry) list" and f :: "'v CacheEntry \<Rightarrow> int"
  assumes "c \<noteq> []"
  shows "\<exists>pre k e post. c = pre @ (k, e) # post
           \<and> find (\<lambda>(key, v). Some (f v) = Math_min (map (\<lambda>(key, v). f v) c)) c = Some (k, e)
           \<and> (\<forall>p \<in> set pre. f e < f (snd p)) \<and> (\<forall>p \<in> set post. f e \<le> f (snd p))"
proof -
  let ?ms = "map (\<lambda>(key, v). f v) c"
  let ?P = "\<lambda>(key, v). Some (f v) = Math_min ?ms"
  obtain m where m: "Math_min ?ms = Some m"
    using Math_min_nonempty [of ?ms] assms by auto
  have least: "m \<in> set ?ms" "\<forall>x \<in> set ?ms. m \<le> x"
    using Math_min_least [OF m] by auto
  then obtain p where p: "p \<in> set c" "?P p"
    unfolding m by (auto split: prod.splits)
  obtain y where y: "find ?P c = Some y"
    using find_exists [of p c ?P] p by blast
  obtain k e where ke: "y = (k, e)" by (cases y)
  obtain pre post where sp: "c = pre @ (k, e) # post" "?P (k, e)" "\<forall>q \<in> set pre. \<not> ?P q"
    using find_split [OF y] unfolding ke by blast
  have fe: "f e = m" using sp(2) m by simp
  have all: "\<forall>q \<in> set c. m \<le> f (snd q)"
    using least(2) by (auto split: prod.splits)
  have pre: "\<forall>q \<in> set pre. f e < f (snd q)"
  proof
    fix q assume q: "q \<in> set pre"
    then have "q \<in> set c" using sp(1) by simp
    then have "m \<le> f (snd q)" using all by blast
    moreover have "f (snd q) \<noteq> m"
    proof
      assume "f (snd q) = m"
      then have "?P q" using m by (cases q) simp
      then show False using sp(3) q by blast
    qed
    ultimately show "f e < f (snd q)" using fe by simp
  qed
  have post: "\<forall>q \<in> set post. f e \<le> f (snd q)"
  proof
    fix q assume "q \<in> set post"
    then have "q \<in> set c" using sp(1) by simp
    then show "f e \<le> f (snd q)" using all fe by simp
  qed
  show ?thesis using sp(1) y ke pre post by blast
qed

lemma Map_delete_split:
  "distinct (map fst (pre @ (k, e) # post)) \<Longrightarrow> Map_delete k (pre @ (k, e) # post) = pre @ post"
  by (induction pre) (auto simp: Map_delete_absent Map_get_None_iff)

lemma evict_first_least:
  fixes c :: "(string \<times> 'v CacheEntry) list" and f :: "'v CacheEntry \<Rightarrow> int"
  assumes "c \<noteq> []" and "Map_size c \<ge> m" and "distinct (map fst c)" and "[] \<notin> fst ` set c"
  shows "\<exists>pre k e post. c = pre @ (k, e) # post
           \<and> (\<forall>p \<in> set pre. f e < f (snd p)) \<and> (\<forall>p \<in> set post. f e \<le> f (snd p))
           \<and> evict_if_full
                (map_option fst (find (\<lambda>(key, v). Some (f v) = Math_min (map (\<lambda>(key, v). f v) c)) c))
                m c = pre @ post"
proof -
  obtain pre k e post where v: "c = pre @ (k, e) # post"
      "find (\<lambda>(key, v). Some (f v) = Math_min (map (\<lambda>(key, v). f v) c)) c = Some (k, e)"
      "\<forall>p \<in> set pre. f e < f (snd p)" "\<forall>p \<in> set post. f e \<le> f (snd p)"
    using first_least_victim [OF assms(1), of f] by blast
  have "k \<in> fst ` set c" using v(1) by force
  then have k: "k \<noteq> []" using assms(4) by metis
  have "Map_delete k c = pre @ post"
    using Map_delete_split [of pre k e post] assms(3) v(1) by simp
  then have "evict_if_full
                (map_option fst (find (\<lambda>(key, v). Some (f v) = Math_min (map (\<lambda>(key, v). f v) c)) c))
                m c = pre @ post"
    unfolding v(2) using k assms(2) by (simp add: evict_if_full_def)
  then show ?thesis using v(1,3,4) by blast
qed

lemma evict_not_full:
  "Map_size c < m \<or> c = [] \<Longrightarrow>
   evict_if_full (map_option fst (find P c)) m c = c"
  by (auto simp: evict_if_full_def)

lemma split3:
  "pre @ x # post = [a, b, c] \<Longrightarrow>
   (pre = [] \<and> x = a \<and> post = [b, c]) \<or> (pre = [a] \<and> x = b \<and> post = [c])
   \<or> (pre = [a, b] \<and> x = c \<and> post = [])"
  by (auto simp: append_eq_Cons_conv)

subsection \<open>The sweep of \<^verbatim>\<open>size\<close>\<close>

lemma lapsed_keys_Nil [simp]: "lapsed_keys now [] = {}"
  by (simp add: lapsed_keys_def)

lemma lapsed_keys_Cons:
  "lapsed_keys now ((k, e) # xs) = (if lapsed now e then insert k (lapsed_keys now xs)
                                    else lapsed_keys now xs)"
proof -
  have "{q \<in> set ((k, e) # xs). lapsed now (snd q)} =
        (if lapsed now e then insert (k, e) {q \<in> set xs. lapsed now (snd q)}
         else {q \<in> set xs. lapsed now (snd q)})"
    by auto
  then show ?thesis by (simp add: lapsed_keys_def)
qed

lemma sweep_entry_lapsed:
  "lapsed now e \<Longrightarrow>
   sweep_entry now (k, e) s = clear_timer k (s\<lparr>cache := Map_delete k (cache s)\<rparr>)"
  by (simp add: sweep_entry_def)

lemma sweep_entry_fresh: "\<not> lapsed now e \<Longrightarrow> sweep_entry now (k, e) s = s"
  by (simp add: sweep_entry_def)

lemma sweep_cache:
  "cache (fold (sweep_entry now) xs s) = filter (\<lambda>p. fst p \<notin> lapsed_keys now xs) (cache s)"
proof (induction xs arbitrary: s)
  case Nil
  then show ?case by simp
next
  case (Cons x xs)
  obtain k e where x: "x = (k, e)" by (cases x)
  show ?case
  proof (cases "lapsed now e")
    case True
    have "filter (\<lambda>p. fst p \<notin> lapsed_keys now xs) (filter (\<lambda>p. fst p \<noteq> k) (cache s))
        = filter (\<lambda>p. fst p \<notin> insert k (lapsed_keys now xs)) (cache s)"
      by (induction "cache s") auto
    then show ?thesis
      unfolding x using True Cons.IH
      by (simp add: sweep_entry_lapsed lapsed_keys_Cons Map_delete_filter)
  next
    case False
    then show ?thesis
      unfolding x using Cons.IH by (simp add: sweep_entry_fresh lapsed_keys_Cons)
  qed
qed

lemma sweep_timers:
  "\<forall>k. Map_get (timers s) k \<noteq> Some 0 \<Longrightarrow>
   Map_get (timers (fold (sweep_entry now) xs s)) k =
     (if k \<in> lapsed_keys now xs then None else Map_get (timers s) k)"
proof (induction xs arbitrary: s)
  case Nil
  then show ?case by simp
next
  case (Cons x xs)
  obtain k0 e where x: "x = (k0, e)" by (cases x)
  show ?case
  proof (cases "lapsed now e")
    case True
    let ?s1 = "clear_timer k0 (s\<lparr>cache := Map_delete k0 (cache s)\<rparr>)"
    have z: "Map_get (timers (s\<lparr>cache := Map_delete k0 (cache s)\<rparr>)) k0 \<noteq> Some 0"
      using Cons.prems by simp
    have t1: "\<And>k'. Map_get (timers ?s1) k' = (if k' = k0 then None else Map_get (timers s) k')"
      using timers_clear_timer [OF z] by simp
    then have "\<forall>k. Map_get (timers ?s1) k \<noteq> Some 0" using Cons.prems by simp
    from Cons.IH [OF this] show ?thesis
      unfolding x using True t1 by (simp add: sweep_entry_lapsed lapsed_keys_Cons)
  next
    case False
    then show ?thesis
      unfolding x using Cons.IH [OF Cons.prems] by (simp add: sweep_entry_fresh lapsed_keys_Cons)
  qed
qed

lemma sweep_scheduled_subset:
  "set (scheduled (fold (sweep_entry now) xs s)) \<subseteq> set (scheduled s)"
proof (induction xs arbitrary: s)
  case Nil
  then show ?case by simp
next
  case (Cons x xs)
  obtain k0 e where x: "x = (k0, e)" by (cases x)
  have "set (scheduled (sweep_entry now x s)) \<subseteq> set (scheduled s)"
    unfolding x using scheduled_clear_timer_subset [of k0 "s\<lparr>cache := Map_delete k0 (cache s)\<rparr>"]
    by (cases "lapsed now e") (simp_all add: sweep_entry_lapsed sweep_entry_fresh)
  then show ?case using Cons.IH [of "sweep_entry now x s"] by auto
qed

lemma sweep_scheduled:
  "\<forall>k. Map_get (timers s) k \<noteq> Some 0 \<Longrightarrow> k \<in> lapsed_keys now xs \<Longrightarrow>
   Map_get (timers s) k = Some t \<Longrightarrow>
   t \<notin> fst ` set (scheduled (fold (sweep_entry now) xs s))"
proof (induction xs arbitrary: s)
  case Nil
  then show ?case by simp
next
  case (Cons x xs)
  obtain k0 e where x: "x = (k0, e)" by (cases x)
  show ?case
  proof (cases "lapsed now e")
    case False
    then have "k \<in> lapsed_keys now xs" using Cons.prems(2) x by (simp add: lapsed_keys_Cons)
    from Cons.IH [OF Cons.prems(1) this Cons.prems(3)] show ?thesis
      unfolding x using False by (simp add: sweep_entry_fresh)
  next
    case True
    let ?s0 = "s\<lparr>cache := Map_delete k0 (cache s)\<rparr>"
    let ?s1 = "clear_timer k0 ?s0"
    have s1: "sweep_entry now x s = ?s1" unfolding x using True by (simp add: sweep_entry_lapsed)
    have z: "Map_get (timers ?s0) k0 \<noteq> Some 0" using Cons.prems(1) by simp
    have t1: "\<And>k'. Map_get (timers ?s1) k' = (if k' = k0 then None else Map_get (timers s) k')"
      using timers_clear_timer [OF z] by simp
    then have nz: "\<forall>k. Map_get (timers ?s1) k \<noteq> Some 0" using Cons.prems(1) by simp
    show ?thesis
    proof (cases "k = k0")
      case True
      have "t \<noteq> 0" using Cons.prems(1,3) by auto
      moreover have "Map_get (timers ?s0) k0 = Some t" using Cons.prems(3) True by simp
      ultimately have "t \<notin> fst ` set (scheduled ?s1)"
        by (rule scheduled_clear_timer [rotated])
      moreover have "set (scheduled (fold (sweep_entry now) xs ?s1)) \<subseteq> set (scheduled ?s1)"
        by (rule sweep_scheduled_subset)
      ultimately show ?thesis using s1 by auto
    next
      case False
      then have "k \<in> lapsed_keys now xs"
        using Cons.prems(2) x by (simp add: lapsed_keys_Cons split: if_splits)
      moreover have "Map_get (timers ?s1) k = Some t" using t1 False Cons.prems(3) by simp
      ultimately show ?thesis using Cons.IH [OF nz] s1 by simp
    qed
  qed
qed

lemma lapsed_keys_distinct:
  assumes "distinct (map fst c)" and "(k, e) \<in> set c"
  shows "k \<in> lapsed_keys now c \<longleftrightarrow> lapsed now e"
proof
  assume "k \<in> lapsed_keys now c"
  then obtain e' where e': "(k, e') \<in> set c" "lapsed now e'"
    by (auto simp: lapsed_keys_def)
  then have "e' = e" using assms by (meson eq_key_imp_eq_value)
  then show "lapsed now e" using e' by simp
next
  assume "lapsed now e"
  then show "k \<in> lapsed_keys now c" using assms(2) by (force simp: lapsed_keys_def)
qed

subsection \<open>LFU and FIFO stay within the capacity\<close>

lemma length_Map_delete: "k \<in> fst ` set c \<Longrightarrow> length (Map_delete k c) < length c"
proof (induction c)
  case Nil
  then show ?case by simp
next
  case (Cons p c)
  have "length (Map_delete k c) \<le> length c"
    unfolding Map_delete_filter by (rule length_filter_le)
  then show ?case using Cons by (cases "fst p = k") auto
qed

lemma length_Map_delete_le: "length (Map_delete k c) \<le> length c"
  unfolding Map_delete_filter by (rule length_filter_le)

lemma length_Map_set: "length (Map_set k v c) \<le> Suc (length c)"
  by (induction c) auto

lemma keys_Map_set: "fst ` set (Map_set k v c) = insert k (fst ` set c)"
  by (induction c) auto

lemma keys_Map_delete: "fst ` set (Map_delete k c) \<subseteq> fst ` set c"
  using set_Map_delete [of k c] by auto

lemma keys_evict_if_full: "fst ` set (evict_if_full victim m c) \<subseteq> fst ` set c"
  using keys_Map_delete [of "the victim" c] by (auto simp: evict_if_full_def)

lemma evict_makes_room:
  fixes c :: "(string \<times> 'v CacheEntry) list" and f :: "'v CacheEntry \<Rightarrow> int"
  assumes "0 < m" and "Map_size c \<le> m" and "[] \<notin> fst ` set c"
  shows "Map_size
           (evict_if_full
              (map_option fst (find (\<lambda>(key, v). Some (f v) = Math_min (map (\<lambda>(key, v). f v) c)) c))
              m c) < m"
proof (cases "Map_size c \<ge> m")
  case False
  then have "evict_if_full
              (map_option fst (find (\<lambda>(key, v). Some (f v) = Math_min (map (\<lambda>(key, v). f v) c)) c))
              m c = c"
    by (auto simp: evict_if_full_def)
  then show ?thesis using False by simp
next
  case True
  then have ne: "c \<noteq> []" using assms(1) by (auto simp: Map_size_def)
  obtain pre k e post where v: "c = pre @ (k, e) # post"
      "find (\<lambda>(key, v). Some (f v) = Math_min (map (\<lambda>(key, v). f v) c)) c = Some (k, e)"
    using first_least_victim [OF ne, of f] by blast
  have kin: "k \<in> fst ` set c" using v(1) by force
  then have k: "k \<noteq> []" using assms(3) by metis
  have "evict_if_full
              (map_option fst (find (\<lambda>(key, v). Some (f v) = Math_min (map (\<lambda>(key, v). f v) c)) c))
              m c = Map_delete k c"
    unfolding v(2) using k True by (simp add: evict_if_full_def)
  then show ?thesis
    using length_Map_delete [OF kin] assms(2) by (simp add: Map_size_def)
qed

lemma within_capacity_deleted:
  "within_capacity m s \<Longrightarrow> within_capacity m (s\<lparr>cache := Map_delete k (cache s)\<rparr>)"
  using keys_Map_delete [of k "cache s"] length_Map_delete_le [of k "cache s"]
  by (auto simp: within_capacity_def Map_size_def)

lemma within_capacity_step:
  fixes s :: "'v cache_state"
  assumes "option s = NonExpireOption m t" and "t \<noteq> LRU" and "0 < m"
    and "uuid_key ev" and "within_capacity m s"
  shows "within_capacity m (step ev s)"
proof (cases ev)
  case (Do_set v key now timerId)
  have key: "key \<noteq> []" using assms(4) Do_set by simp
  have w: "[] \<notin> fst ` set (cache s)" "Map_size (cache s) \<le> m"
    using assms(5) by (simp_all add: within_capacity_def)
  have room: "\<And>victim. Map_size (evict_if_full victim m (cache s)) < m \<Longrightarrow>
      within_capacity m (s\<lparr>cache := Map_set key (new_entry None v now)
                                        (evict_if_full victim m (cache s))\<rparr>)"
  proof -
    fix victim assume r: "Map_size (evict_if_full victim m (cache s)) < m"
    have "[] \<notin> fst ` set (Map_set key (new_entry None v now) (evict_if_full victim m (cache s)))"
      unfolding keys_Map_set using key w(1) keys_evict_if_full [of victim m "cache s"] by auto
    moreover have "Map_size (Map_set key (new_entry None v now) (evict_if_full victim m (cache s))) \<le> m"
      using r length_Map_set [of key "new_entry None v now" "evict_if_full victim m (cache s)"]
      by (simp add: Map_size_def)
    ultimately show "within_capacity m (s\<lparr>cache := Map_set key (new_entry None v now)
                                        (evict_if_full victim m (cache s))\<rparr>)"
      by (simp add: within_capacity_def)
  qed
  show ?thesis
  proof (cases t)
    case LRU
    then show ?thesis using assms(2) by simp
  next
    case LFU
    have "Map_size (evict_if_full (get_lfu_key (cache s)) m (cache s)) < m"
      unfolding get_lfu_key_def Let_def by (rule evict_makes_room [OF assms(3) w(2) w(1)])
    from room [OF this] show ?thesis
      using assms(1) LFU Do_set by (simp add: set_cache_def Let_def)
  next
    case FIFO
    have "Map_size (evict_if_full (get_fifo_key (cache s)) m (cache s)) < m"
      unfolding get_fifo_key_def Let_def by (rule evict_makes_room [OF assms(3) w(2) w(1)])
    from room [OF this] show ?thesis
      using assms(1) FIFO Do_set by (simp add: set_cache_def Let_def)
  qed
next
  case (Do_get key now)
  have b: "\<not> is_expire (option s)" using assms(1) by (simp add: is_expire_def)
  have "map fst (cache (snd (get s key now))) = map fst (cache s)"
    using keys_get_bounded [OF b, of key now] by (simp add: Map_keys_def)
  then have "fst ` set (cache (snd (get s key now))) = fst ` set (cache s)
           \<and> length (cache (snd (get s key now))) = length (cache s)"
    by (metis length_map list.set_map)
  then show ?thesis using assms(5) Do_get by (simp add: within_capacity_def Map_size_def)
next
  case (Do_has key now)
  then show ?thesis
    using assms(1,5) by (simp add: has_def is_expire_def split: option.splits)
next
  case (Do_remove key)
  then show ?thesis
    using assms(1) within_capacity_deleted [OF assms(5), of key]
    by (simp add: remove_def is_expire_def)
next
  case Do_clear
  then show ?thesis
    using assms(1,3) by (simp add: clear_def is_expire_def within_capacity_def Map_size_def)
next
  case (Do_size now)
  then show ?thesis using assms(1,5) by (simp add: size_cache_def is_expire_def)
next
  case (Timer_fires timerId)
  then show ?thesis
    using assms(5) within_capacity_deleted [OF assms(5)]
    by (simp add: timer_fires_def within_capacity_def split: option.splits)
qed

lemma within_capacity_run:
  fixes s :: "'v cache_state"
  assumes "t \<noteq> LRU" and "0 < m"
  shows "option s = NonExpireOption m t \<Longrightarrow> \<forall>ev \<in> set es. uuid_key ev \<Longrightarrow>
         within_capacity m s \<Longrightarrow> within_capacity m (run es s)"
proof (induction es arbitrary: s)
  case Nil
  then show ?case by simp
next
  case (Cons ev es)
  have b: "\<not> is_expire (option s)" using Cons.prems(1) by (simp add: is_expire_def)
  have o: "option (step ev s) = NonExpireOption m t"
    using option_step_bounded [OF b, of ev] Cons.prems(1) by simp
  have w: "within_capacity m (step ev s)"
    using within_capacity_step [OF Cons.prems(1) assms(1,2) _ Cons.prems(3), of ev] Cons.prems(2)
    by simp
  show ?case using Cons.IH [OF o _ w] Cons.prems(2) by simp
qed

lemma lfu_fifo_within_capacity:
  assumes "t \<noteq> LRU" and "0 < m" and "\<forall>ev \<in> set es. uuid_key ev"
  shows "Map_size (cache (run es (empty_cache (NonExpireOption m t)))) \<le> m"
proof -
  have "within_capacity m (run es (empty_cache (NonExpireOption m t)))"
    using assms(2)
    by (intro within_capacity_run [OF assms(1,2) _ assms(3)])
       (simp_all add: empty_cache_def within_capacity_def Map_size_def)
  then show ?thesis by (simp add: within_capacity_def)
qed

subsection \<open>What LRU does: a read, and a \<^verbatim>\<open>set\<close> while the ranks are a permutation\<close>

lemma lru_get_ranks:
  assumes "option s = NonExpireOption m LRU" and "distinct (Map_keys (cache s))"
    and "Map_get (cache s) key = Some e"
  shows "get s key now =
           (Some (content e),
            s\<lparr>cache := map (\<lambda>(k, v). (k, if k = key then v\<lparr>index := 0\<rparr>
                                          else v\<lparr>index := index v + 1\<rparr>)) (cache s)\<rparr>)"
proof -
  have d: "distinct (map fst (cache s))" using assms(2) by (simp add: Map_keys_def)
  have "map (\<lambda>(k, v). (k, if key = k then v\<lparr>index := 0\<rparr> else v\<lparr>index := index v + 1\<rparr>)) (cache s)
      = map (\<lambda>(k, v). (k, if k = key then v\<lparr>index := 0\<rparr> else v\<lparr>index := index v + 1\<rparr>)) (cache s)"
    by (rule map_cong) auto
  then show ?thesis
    unfolding get_LRU [OF assms(1,3)] update_lru_entries_map [OF d] by simp
qed

lemma rank_permutation_ranks:
  assumes "rank_permutation s"
  shows "set (ranks s) = int ` {0..<length (cache s)}" and "distinct (ranks s)"
proof -
  have e: "sort (ranks s) = map int [0..<length (cache s)]"
    using assms by (simp add: rank_permutation_def)
  have "set (ranks s) = set (sort (ranks s))" by simp
  then show "set (ranks s) = int ` {0..<length (cache s)}" unfolding e by simp
  have "distinct (map int [0..<length (cache s)])" by (simp add: distinct_map)
  then have "distinct (sort (ranks s))" unfolding e .
  then show "distinct (ranks s)" by simp
qed

lemma lru_set_under_rank_permutation:
  fixes s :: "'v cache_state"
  assumes "option s = NonExpireOption m LRU" and "distinct (Map_keys (cache s))"
    and "[] \<notin> set (Map_keys (cache s))" and "rank_permutation s"
    and "cache s \<noteq> []" and "Map_size (cache s) \<ge> m"
    and "newKey \<notin> set (Map_keys (cache s))"
  shows "\<exists>pre k e post.
           cache s = pre @ (k, e) # post
           \<and> index e = Map_size (cache s) - 1
           \<and> (\<forall>p \<in> set (pre @ post). index (snd p) < index e)
           \<and> cache (snd (set_cache s v newKey now timerId)) =
               map (\<lambda>(k, e). (k, e\<lparr>index := index e + 1\<rparr>)) (pre @ post) @
               [(newKey, \<lparr>expires = None, content = v, index = 0, frequency = 0,
                           insertedAt = now\<rparr>)]"
proof -
  let ?c = "cache s"
  let ?n = "length ?c"
  let ?P = "\<lambda>(key, v :: 'v CacheEntry). index v = Map_size ?c - 1"
  have d: "distinct (map fst ?c)" using assms(2) by (simp add: Map_keys_def)
  have n: "0 < ?n" using assms(5) by simp
  have rs: "set (ranks s) = int ` {0..<?n}" and rd: "distinct (ranks s)"
    using rank_permutation_ranks [OF assms(4)] by auto
  have "int (?n - 1) \<in> int ` {0..<?n}" using n by simp
  then have "Map_size ?c - 1 \<in> set (ranks s)"
    unfolding rs using n by (simp add: Map_size_def of_nat_diff)
  then obtain p where p: "p \<in> set ?c" "?P p"
    by (auto simp: ranks_def)
  obtain y where y: "find ?P ?c = Some y" using find_exists [of p ?c ?P] p by blast
  obtain k e where ke: "y = (k, e)" by (cases y)
  obtain pre post where sp: "?c = pre @ (k, e) # post" "?P (k, e)"
    using find_split [OF y] unfolding ke by blast
  have ie: "index e = Map_size ?c - 1" using sp(2) by simp
  have rk: "ranks s = map (\<lambda>q. index (snd q)) pre @ index e # map (\<lambda>q. index (snd q)) post"
    unfolding ranks_def by (subst sp(1)) (simp add: case_prod_unfold)
  have out: "index e \<notin> (\<lambda>q. index (snd q)) ` set (pre @ post)"
    using rd unfolding rk by auto
  have less: "\<forall>q \<in> set (pre @ post). index (snd q) < index e"
  proof
    fix q assume q: "q \<in> set (pre @ post)"
    then have ne: "index (snd q) \<noteq> index e" using out by (metis imageI)
    have "q \<in> set ?c" using q by (subst sp(1)) auto
    then have "index (snd q) \<in> set (ranks s)"
      unfolding ranks_def by (auto simp: case_prod_unfold)
    then have "index (snd q) < int ?n" unfolding rs by auto
    then show "index (snd q) < index e" using ne ie by (simp add: Map_size_def)
  qed
  have "k \<in> fst ` set ?c" by (subst sp(1)) force
  moreover have "[] \<notin> fst ` set ?c" using assms(3) by (simp add: Map_keys_def)
  ultimately have k: "k \<noteq> []" by metis
  have lk: "get_lru_key ?c = Some k"
    unfolding get_lru_key_def Let_def y ke by simp
  have del: "Map_delete k ?c = pre @ post"
    using Map_delete_split [of pre k e post] d sp(1) by simp
  have ev: "evict_if_full (get_lru_key ?c) m ?c = pre @ post"
    unfolding lk using k assms(6) del by (simp add: evict_if_full_def)
  have d': "distinct (map fst (pre @ post))" using d by (subst (asm) sp(1)) auto
  have "fst ` set (pre @ post) \<subseteq> fst ` set ?c" by (subst sp(1)) auto
  then have "newKey \<notin> fst ` set (pre @ post)" using assms(7) by (auto simp: Map_keys_def)
  then have f: "newKey \<notin> fst ` set (map (\<lambda>(k, e). (k, e\<lparr>index := index e + 1\<rparr>)) (pre @ post))"
    by force
  have "cache (snd (set_cache s v newKey now timerId)) =
               map (\<lambda>(k, e). (k, e\<lparr>index := index e + 1\<rparr>)) (pre @ post) @
               [(newKey, \<lparr>expires = None, content = v, index = 0, frequency = 0,
                           insertedAt = now\<rparr>)]"
    unfolding cache_set_cache_LRU [OF assms(1)] ev set_loop_map [OF d'] Map_set_fresh [OF f]
    by (simp add: new_entry_def)
  with sp(1) ie less show ?thesis by blast
qed

section \<open>The claims\<close>

text \<open>
  C1. Under LRU the ranks of the live entries should be a permutation of \<open>0..n-1\<close> after
  any sequence of operations, and a \<^verbatim>\<open>get\<close> should preserve that. The code does not
  keep it: \<^verbatim>\<open>_update_lru_entries\<close> increments every other entry, also those that were
  older than the one read, and \<^verbatim>\<open>remove\<close> leaves the ranks of the others as they
  are. After two insertions and a read of the newer entry the ranks are \<open>2\<close> and \<open>0\<close>;
  after two insertions and the removal of the newer entry the one rank left is \<open>1\<close>.
\<close>

theorem lru_get_breaks_rank_permutation:
  "ranks (run [Do_set ''a'' ''k1'' 1 0, Do_set ''b'' ''k2'' 2 0, Do_get ''k2'' 3]
            (empty_cache (NonExpireOption 2 LRU))) = [2, 0]
   \<and> \<not> rank_permutation
          (run [Do_set ''a'' ''k1'' 1 0, Do_set ''b'' ''k2'' 2 0, Do_get ''k2'' 3]
             (empty_cache (NonExpireOption 2 LRU)))
   \<and> ranks (run [Do_set ''a'' ''k1'' 1 0, Do_set ''b'' ''k2'' 2 0, Do_remove ''k2'']
            (empty_cache (NonExpireOption 2 LRU))) = [1]
   \<and> \<not> rank_permutation
          (run [Do_set ''a'' ''k1'' 1 0, Do_set ''b'' ''k2'' 2 0, Do_remove ''k2'']
             (empty_cache (NonExpireOption 2 LRU)))"
  by code_simp

text \<open>
  C2. After a \<^verbatim>\<open>set\<close> the number of entries should be at most \<^verbatim>\<open>max\<close>. Under LRU
  the victim is looked up by the rank \<open>size - 1\<close>; once the ranks have a gap no entry has
  that rank, nothing is evicted, and a cache of capacity 2 holds three entries.
\<close>

theorem lru_set_exceeds_capacity:
  "Map_size (cache (run [Do_set ''a'' ''k1'' 1 0, Do_set ''b'' ''k2'' 2 0, Do_get ''k2'' 3,
                         Do_set ''c'' ''k3'' 4 0]
                      (empty_cache (NonExpireOption 2 LRU)))) = 3"
  by code_simp

text \<open>
  C4. A \<^verbatim>\<open>set\<close> at capacity under LRU should evict exactly the entry of greatest rank.
  With capacity 3 and ranks \<open>3, 2, 0\<close> the code evicts the entry of rank \<open>2\<close> and keeps
  the older one of rank \<open>3\<close>; at the next \<^verbatim>\<open>set\<close> no entry has rank \<open>2\<close> and nothing
  is evicted at all.
\<close>

theorem lru_set_evicts_wrong_entry:
  "map (\<lambda>(k, e). (k, index e))
       (cache (run [Do_set ''a'' ''k1'' 1 0, Do_set ''b'' ''k2'' 2 0, Do_set ''c'' ''k3'' 3 0,
                    Do_get ''k3'' 4]
                 (empty_cache (NonExpireOption 3 LRU))))
     = [(''k1'', 3), (''k2'', 2), (''k3'', 0)]
   \<and> map (\<lambda>(k, e). (k, index e))
       (cache (run [Do_set ''a'' ''k1'' 1 0, Do_set ''b'' ''k2'' 2 0, Do_set ''c'' ''k3'' 3 0,
                    Do_get ''k3'' 4, Do_set ''d'' ''k4'' 5 0]
                 (empty_cache (NonExpireOption 3 LRU))))
     = [(''k1'', 4), (''k3'', 1), (''k4'', 0)]
   \<and> map (\<lambda>(k, e). (k, index e))
       (cache (run [Do_set ''a'' ''k1'' 1 0, Do_set ''b'' ''k2'' 2 0, Do_set ''c'' ''k3'' 3 0,
                    Do_get ''k3'' 4, Do_set ''d'' ''k4'' 5 0, Do_set ''e'' ''k5'' 6 0]
                 (empty_cache (NonExpireOption 3 LRU))))
     = [(''k1'', 5), (''k3'', 2), (''k4'', 1), (''k5'', 0)]"
  by code_simp

text \<open>
  C3, as stated: an inconsistent configuration is rejected with a ConfigurationError.
  It fails: a capacity of \<open>0\<close> is accepted and the cache that results stores and returns
  a value.
\<close>

theorem Cache_accepts_nonpositive_capacity:
  "\<not> consistent_config (NonExpireOption 0 LRU)
   \<and> (Cache (Some (NonExpireOption 0 LRU)) :: error + string cache_state) \<noteq> Inl ConfigurationError
   \<and> fst (get (snd (set_cache (empty_cache (NonExpireOption 0 LRU)) ''item'' ''k1'' 1 0)) ''k1'' 2)
       = Some ''item''"
  by code_simp

text \<open>
  C3, amended: construction validates nothing and never raises. For every configuration
  of type \<^verbatim>\<open>Option\<close>, and for none (the default is LRU with capacity 10), it returns an
  empty cache holding that configuration.
\<close>

theorem Cache_never_raises:
  "\<exists>s. (Cache arg :: error + 'v cache_state) = Inr s
       \<and> option s = (case arg of None \<Rightarrow> NonExpireOption 10 LRU | Some opt \<Rightarrow> opt)
       \<and> cache s = [] \<and> timers s = [] \<and> scheduled s = []"
  by (simp add: Cache_def empty_cache_def)

text \<open>
  C9. \<^verbatim>\<open>remove(k)\<close> deletes the entry of \<open>k\<close> and nothing else, under every policy:
  the other entries keep their order, content and metadata (so LRU ranks are not
  renormalised), and removing an absent key leaves the entries as they are.
\<close>

theorem remove_frame:
  "cache (remove s k) = filter (\<lambda>p. fst p \<noteq> k) (cache s)
   \<and> Map_get (cache (remove s k)) k = None
   \<and> (\<forall>k'. k' \<noteq> k \<longrightarrow> Map_get (cache (remove s k)) k' = Map_get (cache s) k')
   \<and> (Map_get (cache s) k = None \<longrightarrow> cache (remove s k) = cache s)
   \<and> (Map_get (cache s) k = None \<and> \<not> is_expire (option s) \<longrightarrow> remove s k = s)
   \<and> option (remove s k) = option s"
proof -
  have "Map_get (cache s) k = None \<Longrightarrow> \<not> is_expire (option s) \<Longrightarrow> remove s k = s"
    by (simp add: remove_def Let_def Map_delete_absent)
  moreover have "option (remove s k) = option s"
    by (simp add: remove_def Let_def)
  ultimately show ?thesis
    by (simp add: cache_remove Map_get_delete Map_delete_absent Map_delete_filter [symmetric])
qed

theorem remove_frame_witness:
  "''k3'' \<noteq> ''k2''
   \<and> Map_get (cache (remove (run [Do_set ''a'' ''k1'' 1 0, Do_set ''b'' ''k2'' 2 0, Do_set ''c'' ''k3'' 3 0]
                     (empty_cache (NonExpireOption 3 LRU))) ''k2'')) ''k3''
     = Some \<lparr>expires = None, content = ''c'', index = 0, frequency = 0, insertedAt = 3\<rparr>
   \<and> map (\<lambda>(k, e). (k, index e))
       (cache (remove (run [Do_set ''a'' ''k1'' 1 0, Do_set ''b'' ''k2'' 2 0, Do_set ''c'' ''k3'' 3 0]
                     (empty_cache (NonExpireOption 3 LRU))) ''k2'')) = [(''k1'', 2), (''k3'', 0)]"
proof -
  let ?s = "run [Do_set ''a'' ''k1'' 1 0, Do_set ''b'' ''k2'' 2 0, Do_set ''c'' ''k3'' 3 0]
              (empty_cache (NonExpireOption 3 LRU)) :: string cache_state"
  have c: "cache ?s =
      [(''k1'', \<lparr>expires = None, content = ''a'', index = 2, frequency = 0, insertedAt = 1\<rparr>),
       (''k2'', \<lparr>expires = None, content = ''b'', index = 1, frequency = 0, insertedAt = 2\<rparr>),
       (''k3'', \<lparr>expires = None, content = ''c'', index = 0, frequency = 0, insertedAt = 3\<rparr>)]"
    by code_simp
  have ne: "''k3'' \<noteq> ''k2''" by simp
  note fr = remove_frame [of ?s "''k2''"]
  have f: "cache (remove ?s ''k2'') = filter (\<lambda>p. fst p \<noteq> ''k2'') (cache ?s)"
    by (rule fr [THEN conjunct1])
  have g: "Map_get (cache (remove ?s ''k2'')) ''k3'' = Map_get (cache ?s) ''k3''"
    by (rule fr [THEN conjunct2, THEN conjunct2, THEN conjunct1, rule_format, OF ne])
  show ?thesis unfolding g f c by simp
qed

text \<open>
  C5. Under EXPIRE, when the clock has passed the entry's \<open>expires\<close>, \<^verbatim>\<open>get\<close> returns
  \<^verbatim>\<open>undefined\<close> and \<^verbatim>\<open>has\<close> returns \<^verbatim>\<open>false\<close>; both delete the entry, drop its
  handle from \<^verbatim>\<open>timers\<close> and cancel the pending timeout, and leave every other entry
  alone, whether or not the timeout has fired. Handles are those \<^verbatim>\<open>setTimeout\<close>
  returns, which are never \<open>0\<close>.
\<close>

theorem expire_lazy_check:
  assumes "option s = ExpireOption maxAge"
    and "Map_get (cache s) key = Some e"
    and "expires e = Some t"
    and "now > t"
    and "Map_get (timers s) key \<noteq> Some 0"
  shows "fst (get s key now) = None
       \<and> fst (has s key now) = False
       \<and> snd (has s key now) = snd (get s key now)
       \<and> Map_get (cache (snd (get s key now))) key = None
       \<and> Map_get (timers (snd (get s key now))) key = None
       \<and> (\<forall>timerId. Map_get (timers s) key = Some timerId
             \<longrightarrow> timerId \<notin> fst ` set (scheduled (snd (get s key now))))
       \<and> (\<forall>k'. k' \<noteq> key
             \<longrightarrow> Map_get (cache (snd (get s key now))) k' = Map_get (cache s) k')"
proof -
  let ?s1 = "s\<lparr>cache := Map_delete key (cache s)\<rparr>"
  have l: "lapsed now e" using assms(3,4) by (simp add: lapsed_def)
  have g: "get s key now = (None, clear_timer key ?s1)"
    using assms(1,2) l by (simp add: get_def is_expire_def)
  have h: "has s key now = (False, clear_timer key ?s1)"
    using assms(1,2) l by (simp add: has_def is_expire_def)
  have t1: "Map_get (timers ?s1) key \<noteq> Some 0" using assms(5) by simp
  have tm: "Map_get (timers (clear_timer key ?s1)) key = None"
    using timers_clear_timer [OF t1, of key] by simp
  have sc: "\<forall>timerId. Map_get (timers s) key = Some timerId
             \<longrightarrow> timerId \<notin> fst ` set (scheduled (clear_timer key ?s1))"
  proof (intro allI impI)
    fix timerId assume a: "Map_get (timers s) key = Some timerId"
    then have "timerId \<noteq> 0" using assms(5) by auto
    moreover have "Map_get (timers ?s1) key = Some timerId" using a by simp
    ultimately show "timerId \<notin> fst ` set (scheduled (clear_timer key ?s1))"
      by (rule scheduled_clear_timer [rotated])
  qed
  show ?thesis
    unfolding g h using tm sc by (simp add: Map_get_delete)
qed

theorem expire_lazy_check_witness:
  "option (run [Do_set ''a'' ''k1'' 100 7] (empty_cache (ExpireOption 50))) = ExpireOption 50
   \<and> Map_get (cache (run [Do_set ''a'' ''k1'' 100 7] (empty_cache (ExpireOption 50)))) ''k1''
       = Some \<lparr>expires = Some 150, content = ''a'', index = 0, frequency = 0, insertedAt = 100\<rparr>
   \<and> (151 :: int) > 150
   \<and> Map_get (timers (run [Do_set ''a'' ''k1'' 100 7] (empty_cache (ExpireOption 50)))) ''k1''
       = Some 7
   \<and> fst (get (run [Do_set ''a'' ''k1'' 100 7] (empty_cache (ExpireOption 50))) ''k1'' 151) = None
   \<and> 7 \<notin> fst ` set (scheduled (snd (get (run [Do_set ''a'' ''k1'' 100 7]
                                              (empty_cache (ExpireOption 50))) ''k1'' 151)))"
proof -
  let ?s = "run [Do_set ''a'' ''k1'' 100 7] (empty_cache (ExpireOption 50)) :: string cache_state"
  let ?e = "\<lparr>expires = Some 150, content = ''a'', index = 0, frequency = 0, insertedAt = 100\<rparr>
              :: string CacheEntry"
  have o: "option ?s = ExpireOption 50" by code_simp
  have c: "Map_get (cache ?s) ''k1'' = Some ?e" by code_simp
  have e: "expires ?e = Some 150" by simp
  have n: "(151 :: int) > 150" by simp
  have t: "Map_get (timers ?s) ''k1'' = Some 7" by code_simp
  have t0: "Map_get (timers ?s) ''k1'' \<noteq> Some 0" unfolding t by simp
  note w = expire_lazy_check [OF o c e n t0]
  have g: "fst (get ?s ''k1'' 151) = None" by (rule w [THEN conjunct1])
  have "7 \<notin> fst ` set (scheduled (snd (get ?s ''k1'' 151)))"
    by (rule w [THEN conjunct2, THEN conjunct2, THEN conjunct2, THEN conjunct2, THEN conjunct2,
                THEN conjunct1, rule_format, OF t])
  with o c n t g show ?thesis by (intro conjI)
qed

text \<open>
  C10. Under LRU, LFU and FIFO every entry of every reachable state has \<open>expires\<close> equal
  to \<^verbatim>\<open>false\<close>, and in any state of such a cache \<^verbatim>\<open>get\<close> keeps the keys as they are,
  \<^verbatim>\<open>has\<close> and \<^verbatim>\<open>size\<close> change nothing, and \<^verbatim>\<open>size\<close> returns the number of entries.
\<close>

theorem bounded_policies_never_expire:
  "(\<forall>p \<in> set (cache (run (es :: 'v event list) (empty_cache (NonExpireOption m t)))).
       expires (snd p) = None)
   \<and> (\<forall>s :: 'v cache_state. option s = NonExpireOption m t \<longrightarrow>
          Map_keys (cache (snd (get s key now))) = Map_keys (cache s)
          \<and> snd (has s key now) = s
          \<and> size_cache s now = (Map_size (cache s), s))"
proof (intro conjI allI impI)
  have "no_expiry (run es (empty_cache (NonExpireOption m t)))"
    by (rule no_expiry_run) (simp_all add: empty_cache_def is_expire_def no_expiry_def)
  then show "\<forall>p \<in> set (cache (run es (empty_cache (NonExpireOption m t)))). expires (snd p) = None"
    by (simp add: no_expiry_def)
next
  fix s :: "'v cache_state"
  assume o: "option s = NonExpireOption m t"
  then have b: "\<not> is_expire (option s)" by (simp add: is_expire_def)
  show "Map_keys (cache (snd (get s key now))) = Map_keys (cache s)"
    by (rule keys_get_bounded [OF b])
  show "snd (has s key now) = s"
    using b by (simp add: has_def split: option.splits)
  show "size_cache s now = (Map_size (cache s), s)"
    by (rule size_cache_bounded [OF b])
qed

theorem bounded_policies_never_expire_witness:
  "(''k1'', \<lparr>expires = None, content = ''a'', index = 0, frequency = 1, insertedAt = 1\<rparr>)
     \<in> set (cache (run [Do_set ''a'' ''k1'' 1 0, Do_set ''b'' ''k2'' 2 0, Do_get ''k1'' 3]
                     (empty_cache (NonExpireOption 2 LFU))))
   \<and> expires (snd (''k1'', \<lparr>expires = None, content = ''a'', index = 0, frequency = 1,
                              insertedAt = 1\<rparr>)) = None
   \<and> option (run [Do_set ''a'' ''k1'' 1 0, Do_set ''b'' ''k2'' 2 0]
                (empty_cache (NonExpireOption 2 LFU))) = NonExpireOption 2 LFU
   \<and> Map_keys (cache (snd (get (run [Do_set ''a'' ''k1'' 1 0, Do_set ''b'' ''k2'' 2 0]
                                 (empty_cache (NonExpireOption 2 LFU))) ''k1'' 3)))
       = [''k1'', ''k2'']"
proof -
  let ?s = "run [Do_set ''a'' ''k1'' 1 0, Do_set ''b'' ''k2'' 2 0]
              (empty_cache (NonExpireOption 2 LFU)) :: string cache_state"
  let ?p = "(''k1'', \<lparr>expires = None, content = ''a'', index = 0, frequency = 1,
                       insertedAt = 1\<rparr>) :: string \<times> string CacheEntry"
  note w = bounded_policies_never_expire
             [of "[Do_set ''a'' ''k1'' 1 0, Do_set ''b'' ''k2'' 2 0, Do_get ''k1'' 3]" 2 LFU "''k1''" 3]
  have m: "?p \<in> set (cache (run [Do_set ''a'' ''k1'' 1 0, Do_set ''b'' ''k2'' 2 0, Do_get ''k1'' 3]
                     (empty_cache (NonExpireOption 2 LFU))))"
    by code_simp
  have e: "expires (snd ?p) = None"
    by (rule w [THEN conjunct1, THEN bspec, OF m])
  have o: "option ?s = NonExpireOption 2 LFU" by code_simp
  have k: "Map_keys (cache ?s) = [''k1'', ''k2'']" by code_simp
  have "Map_keys (cache (snd (get ?s ''k1'' 3))) = Map_keys (cache ?s)"
    using w [THEN conjunct2, rule_format, OF o] by (rule conjunct1)
  then have "Map_keys (cache (snd (get ?s ''k1'' 3))) = [''k1'', ''k2'']"
    unfolding k .
  with m e o show ?thesis by (intro conjI)
qed

text \<open>
  C6. Under FIFO a successful \<^verbatim>\<open>get\<close> sets \<open>insertedAt\<close> of the entry read to the
  clock and changes nothing else; a \<^verbatim>\<open>set\<close> at capacity (the keys being the non-empty,
  fresh UUIDs of the source) evicts the entry of least \<open>insertedAt\<close>, the first such in
  iteration order, and appends the new entry. So eviction follows the last read, not the
  insertion alone: in the example below the entry inserted first survives because it was
  read.
\<close>

theorem fifo_read_refreshes_and_oldest_is_evicted:
  fixes s :: "'v cache_state"
  assumes "option s = NonExpireOption m FIFO" and "distinct (Map_keys (cache s))"
  shows "(\<forall>e. Map_get (cache s) key = Some e \<longrightarrow>
            get s key now =
              (Some (content e),
               s\<lparr>cache := map (\<lambda>(k, v). (k, if k = key then v\<lparr>insertedAt := now\<rparr> else v))
                                (cache s)\<rparr>))
       \<and> (cache s \<noteq> [] \<and> Map_size (cache s) \<ge> m \<and> [] \<notin> set (Map_keys (cache s))
            \<and> newKey \<notin> set (Map_keys (cache s)) \<longrightarrow>
            (\<exists>pre k e post.
               cache s = pre @ (k, e) # post
               \<and> (\<forall>p \<in> set pre. insertedAt e < insertedAt (snd p))
               \<and> (\<forall>p \<in> set post. insertedAt e \<le> insertedAt (snd p))
               \<and> cache (snd (set_cache s v newKey now' timerId)) =
                   pre @ post @
                   [(newKey, \<lparr>expires = None, content = v, index = 0, frequency = 0,
                               insertedAt = now'\<rparr>)]))"
proof (intro conjI allI impI)
  fix e assume e: "Map_get (cache s) key = Some e"
  have d: "distinct (map fst (cache s))" using assms(2) by (simp add: Map_keys_def)
  have "map (\<lambda>(k, v). (k, if key = k then v\<lparr>insertedAt := now\<rparr> else v)) (cache s)
      = map (\<lambda>(k, v). (k, if k = key then v\<lparr>insertedAt := now\<rparr> else v)) (cache s)"
    by (rule map_cong) auto
  then show "get s key now =
              (Some (content e),
               s\<lparr>cache := map (\<lambda>(k, v). (k, if k = key then v\<lparr>insertedAt := now\<rparr> else v))
                                (cache s)\<rparr>)"
    unfolding get_FIFO [OF assms(1) e] update_fifo_entries_map [OF d] by simp
next
  assume a: "cache s \<noteq> [] \<and> Map_size (cache s) \<ge> m \<and> [] \<notin> set (Map_keys (cache s))
            \<and> newKey \<notin> set (Map_keys (cache s))"
  have d: "distinct (map fst (cache s))" using assms(2) by (simp add: Map_keys_def)
  have t: "[] \<notin> fst ` set (cache s)" using a by (simp add: Map_keys_def)
  obtain pre k e post where v: "cache s = pre @ (k, e) # post"
      "\<forall>p \<in> set pre. insertedAt e < insertedAt (snd p)"
      "\<forall>p \<in> set post. insertedAt e \<le> insertedAt (snd p)"
      "evict_if_full (get_fifo_key (cache s)) m (cache s) = pre @ post"
    using evict_first_least [of "cache s" m insertedAt] a d t
    unfolding get_fifo_key_def Let_def by blast
  have "fst ` set (pre @ post) \<subseteq> fst ` set (cache s)" unfolding v(1) by auto
  then have f: "newKey \<notin> fst ` set (pre @ post)" using a by (auto simp: Map_keys_def)
  have "cache (snd (set_cache s v newKey now' timerId)) =
          pre @ post @ [(newKey, \<lparr>expires = None, content = v, index = 0, frequency = 0,
                                  insertedAt = now'\<rparr>)]"
    unfolding cache_set_cache_FIFO [OF assms(1)] v(4) Map_set_fresh [OF f]
    by (simp add: new_entry_def)
  with v(1,2,3) show "\<exists>pre k e post.
               cache s = pre @ (k, e) # post
               \<and> (\<forall>p \<in> set pre. insertedAt e < insertedAt (snd p))
               \<and> (\<forall>p \<in> set post. insertedAt e \<le> insertedAt (snd p))
               \<and> cache (snd (set_cache s v newKey now' timerId)) =
                   pre @ post @
                   [(newKey, \<lparr>expires = None, content = v, index = 0, frequency = 0,
                               insertedAt = now'\<rparr>)]"
    by blast
qed

theorem fifo_read_refreshes_and_oldest_is_evicted_witness:
  "get \<lparr>option = NonExpireOption 3 FIFO,
        cache = [(''k1'', \<lparr>expires = None, content = ''a'', index = 0, frequency = 0, insertedAt = 1\<rparr>),
                 (''k2'', \<lparr>expires = None, content = ''b'', index = 0, frequency = 0, insertedAt = 2\<rparr>),
                 (''k3'', \<lparr>expires = None, content = ''c'', index = 0, frequency = 0, insertedAt = 3\<rparr>)],
        timers = [], scheduled = []\<rparr> ''k1'' 4
     = (Some ''a'',
        \<lparr>option = NonExpireOption 3 FIFO,
         cache = [(''k1'', \<lparr>expires = None, content = ''a'', index = 0, frequency = 0, insertedAt = 4\<rparr>),
                  (''k2'', \<lparr>expires = None, content = ''b'', index = 0, frequency = 0, insertedAt = 2\<rparr>),
                  (''k3'', \<lparr>expires = None, content = ''c'', index = 0, frequency = 0, insertedAt = 3\<rparr>)],
         timers = [], scheduled = []\<rparr>)
   \<and> cache (snd (set_cache
        \<lparr>option = NonExpireOption 3 FIFO,
         cache = [(''k1'', \<lparr>expires = None, content = ''a'', index = 0, frequency = 0, insertedAt = 4\<rparr>),
                  (''k2'', \<lparr>expires = None, content = ''b'', index = 0, frequency = 0, insertedAt = 2\<rparr>),
                  (''k3'', \<lparr>expires = None, content = ''c'', index = 0, frequency = 0, insertedAt = 3\<rparr>)],
         timers = [], scheduled = []\<rparr> ''d'' ''k4'' 5 0))
     = [(''k1'', \<lparr>expires = None, content = ''a'', index = 0, frequency = 0, insertedAt = 4\<rparr>),
        (''k3'', \<lparr>expires = None, content = ''c'', index = 0, frequency = 0, insertedAt = 3\<rparr>),
        (''k4'', \<lparr>expires = None, content = ''d'', index = 0, frequency = 0, insertedAt = 5\<rparr>)]"
proof -
  let ?e1 = "\<lparr>expires = None, content = ''a'', index = 0, frequency = 0, insertedAt = 1\<rparr> :: string CacheEntry"
  let ?e1' = "\<lparr>expires = None, content = ''a'', index = 0, frequency = 0, insertedAt = 4\<rparr> :: string CacheEntry"
  let ?e2 = "\<lparr>expires = None, content = ''b'', index = 0, frequency = 0, insertedAt = 2\<rparr> :: string CacheEntry"
  let ?e3 = "\<lparr>expires = None, content = ''c'', index = 0, frequency = 0, insertedAt = 3\<rparr> :: string CacheEntry"
  let ?s0 = "\<lparr>option = NonExpireOption 3 FIFO,
              cache = [(''k1'', ?e1), (''k2'', ?e2), (''k3'', ?e3)], timers = [], scheduled = []\<rparr>"
  let ?s1 = "\<lparr>option = NonExpireOption 3 FIFO,
              cache = [(''k1'', ?e1'), (''k2'', ?e2), (''k3'', ?e3)], timers = [], scheduled = []\<rparr>"
  have o0: "option ?s0 = NonExpireOption 3 FIFO" and o1: "option ?s1 = NonExpireOption 3 FIFO"
    by simp_all
  have d0: "distinct (Map_keys (cache ?s0))" and d1: "distinct (Map_keys (cache ?s1))"
    by (simp_all add: Map_keys_def)
  have g0: "Map_get (cache ?s0) ''k1'' = Some ?e1" by simp
  have g: "get ?s0 ''k1'' 4 = (Some ''a'', ?s1)"
    using fifo_read_refreshes_and_oldest_is_evicted
            [OF o0 d0, of "''k1''" 4, THEN conjunct1, rule_format, OF g0]
    by simp
  have full: "cache ?s1 \<noteq> [] \<and> Map_size (cache ?s1) \<ge> 3 \<and> [] \<notin> set (Map_keys (cache ?s1))
            \<and> ''k4'' \<notin> set (Map_keys (cache ?s1))"
    by (simp add: Map_keys_def Map_size_def)
  obtain pre k e post where v: "cache ?s1 = pre @ (k, e) # post"
      "\<forall>p \<in> set pre. insertedAt e < insertedAt (snd p)"
      "\<forall>p \<in> set post. insertedAt e \<le> insertedAt (snd p)"
      "cache (snd (set_cache ?s1 ''d'' ''k4'' 5 0)) =
         pre @ post @ [(''k4'', \<lparr>expires = None, content = ''d'', index = 0, frequency = 0,
                                 insertedAt = 5\<rparr>)]"
    using fifo_read_refreshes_and_oldest_is_evicted
            [OF o1 d1, of _ _ "''k4''" "''d''" 5 0, THEN conjunct2, THEN mp, OF full]
    by blast
  have "pre @ (k, e) # post = [(''k1'', ?e1'), (''k2'', ?e2), (''k3'', ?e3)]"
    using v(1) by simp
  from split3 [OF this] v(2,3) have "pre = [(''k1'', ?e1')] \<and> post = [(''k3'', ?e3)]"
    by auto
  then have "cache (snd (set_cache ?s1 ''d'' ''k4'' 5 0)) =
      [(''k1'', ?e1'), (''k3'', ?e3),
       (''k4'', \<lparr>expires = None, content = ''d'', index = 0, frequency = 0, insertedAt = 5\<rparr>)]"
    using v(4) by simp
  with g show ?thesis by (intro conjI)
qed

text \<open>
  C7. Under LFU a successful \<^verbatim>\<open>get\<close> adds one to \<open>frequency\<close> of the entry read and
  changes nothing else; \<^verbatim>\<open>set\<close> inserts the new entry with \<open>frequency = 0\<close> and leaves
  the entries it keeps as they are; at capacity it evicts an entry of least \<open>frequency\<close>,
  the first such in iteration order.
\<close>

theorem lfu_counts_reads_and_least_is_evicted:
  fixes s :: "'v cache_state"
  assumes "option s = NonExpireOption m LFU" and "distinct (Map_keys (cache s))"
  shows "(\<forall>e. Map_get (cache s) key = Some e \<longrightarrow>
            get s key now =
              (Some (content e),
               s\<lparr>cache := map (\<lambda>(k, v). (k, if k = key then v\<lparr>frequency := frequency v + 1\<rparr> else v))
                                (cache s)\<rparr>))
       \<and> ((Map_size (cache s) < m \<or> cache s = []) \<and> newKey \<notin> set (Map_keys (cache s)) \<longrightarrow>
            cache (snd (set_cache s v newKey now' timerId)) =
              cache s @ [(newKey, \<lparr>expires = None, content = v, index = 0, frequency = 0,
                                    insertedAt = now'\<rparr>)])
       \<and> (cache s \<noteq> [] \<and> Map_size (cache s) \<ge> m \<and> [] \<notin> set (Map_keys (cache s))
            \<and> newKey \<notin> set (Map_keys (cache s)) \<longrightarrow>
            (\<exists>pre k e post.
               cache s = pre @ (k, e) # post
               \<and> (\<forall>p \<in> set pre. frequency e < frequency (snd p))
               \<and> (\<forall>p \<in> set post. frequency e \<le> frequency (snd p))
               \<and> cache (snd (set_cache s v newKey now' timerId)) =
                   pre @ post @
                   [(newKey, \<lparr>expires = None, content = v, index = 0, frequency = 0,
                               insertedAt = now'\<rparr>)]))"
proof (intro conjI allI impI)
  fix e assume e: "Map_get (cache s) key = Some e"
  have d: "distinct (map fst (cache s))" using assms(2) by (simp add: Map_keys_def)
  have "map (\<lambda>(k, v). (k, if key = k then v\<lparr>frequency := frequency v + 1\<rparr> else v)) (cache s)
      = map (\<lambda>(k, v). (k, if k = key then v\<lparr>frequency := frequency v + 1\<rparr> else v)) (cache s)"
    by (rule map_cong) auto
  then show "get s key now =
              (Some (content e),
               s\<lparr>cache := map (\<lambda>(k, v). (k, if k = key then v\<lparr>frequency := frequency v + 1\<rparr> else v))
                                (cache s)\<rparr>)"
    unfolding get_LFU [OF assms(1) e] update_lfu_entries_map [OF d] by simp
next
  assume a: "(Map_size (cache s) < m \<or> cache s = []) \<and> newKey \<notin> set (Map_keys (cache s))"
  then have f: "newKey \<notin> fst ` set (cache s)" by (simp add: Map_keys_def)
  have n: "evict_if_full (get_lfu_key (cache s)) m (cache s) = cache s"
    unfolding get_lfu_key_def Let_def using a by (intro evict_not_full) simp
  show "cache (snd (set_cache s v newKey now' timerId)) =
              cache s @ [(newKey, \<lparr>expires = None, content = v, index = 0, frequency = 0,
                                    insertedAt = now'\<rparr>)]"
    unfolding cache_set_cache_LFU [OF assms(1)] n Map_set_fresh [OF f]
    by (simp add: new_entry_def)
next
  assume a: "cache s \<noteq> [] \<and> Map_size (cache s) \<ge> m \<and> [] \<notin> set (Map_keys (cache s))
            \<and> newKey \<notin> set (Map_keys (cache s))"
  have d: "distinct (map fst (cache s))" using assms(2) by (simp add: Map_keys_def)
  have t: "[] \<notin> fst ` set (cache s)" using a by (simp add: Map_keys_def)
  obtain pre k e post where v: "cache s = pre @ (k, e) # post"
      "\<forall>p \<in> set pre. frequency e < frequency (snd p)"
      "\<forall>p \<in> set post. frequency e \<le> frequency (snd p)"
      "evict_if_full (get_lfu_key (cache s)) m (cache s) = pre @ post"
    using evict_first_least [of "cache s" m frequency] a d t
    unfolding get_lfu_key_def Let_def by blast
  have "fst ` set (pre @ post) \<subseteq> fst ` set (cache s)" unfolding v(1) by auto
  then have f: "newKey \<notin> fst ` set (pre @ post)" using a by (auto simp: Map_keys_def)
  have "cache (snd (set_cache s v newKey now' timerId)) =
          pre @ post @ [(newKey, \<lparr>expires = None, content = v, index = 0, frequency = 0,
                                  insertedAt = now'\<rparr>)]"
    unfolding cache_set_cache_LFU [OF assms(1)] v(4) Map_set_fresh [OF f]
    by (simp add: new_entry_def)
  with v(1,2,3) show "\<exists>pre k e post.
               cache s = pre @ (k, e) # post
               \<and> (\<forall>p \<in> set pre. frequency e < frequency (snd p))
               \<and> (\<forall>p \<in> set post. frequency e \<le> frequency (snd p))
               \<and> cache (snd (set_cache s v newKey now' timerId)) =
                   pre @ post @
                   [(newKey, \<lparr>expires = None, content = v, index = 0, frequency = 0,
                               insertedAt = now'\<rparr>)]"
    by blast
qed

theorem lfu_counts_reads_and_least_is_evicted_witness:
  "get \<lparr>option = NonExpireOption 3 LFU,
        cache = [(''k1'', \<lparr>expires = None, content = ''a'', index = 0, frequency = 0, insertedAt = 1\<rparr>),
                 (''k2'', \<lparr>expires = None, content = ''b'', index = 0, frequency = 0, insertedAt = 2\<rparr>),
                 (''k3'', \<lparr>expires = None, content = ''c'', index = 0, frequency = 0, insertedAt = 3\<rparr>)],
        timers = [], scheduled = []\<rparr> ''k1'' 4
     = (Some ''a'',
        \<lparr>option = NonExpireOption 3 LFU,
         cache = [(''k1'', \<lparr>expires = None, content = ''a'', index = 0, frequency = 1, insertedAt = 1\<rparr>),
                  (''k2'', \<lparr>expires = None, content = ''b'', index = 0, frequency = 0, insertedAt = 2\<rparr>),
                  (''k3'', \<lparr>expires = None, content = ''c'', index = 0, frequency = 0, insertedAt = 3\<rparr>)],
         timers = [], scheduled = []\<rparr>)
   \<and> cache (snd (set_cache
        \<lparr>option = NonExpireOption 3 LFU,
         cache = [(''k1'', \<lparr>expires = None, content = ''a'', index = 0, frequency = 1, insertedAt = 1\<rparr>),
                  (''k2'', \<lparr>expires = None, content = ''b'', index = 0, frequency = 0, insertedAt = 2\<rparr>),
                  (''k3'', \<lparr>expires = None, content = ''c'', index = 0, frequency = 0, insertedAt = 3\<rparr>)],
         timers = [], scheduled = []\<rparr> ''d'' ''k4'' 5 0))
     = [(''k1'', \<lparr>expires = None, content = ''a'', index = 0, frequency = 1, insertedAt = 1\<rparr>),
        (''k3'', \<lparr>expires = None, content = ''c'', index = 0, frequency = 0, insertedAt = 3\<rparr>),
        (''k4'', \<lparr>expires = None, content = ''d'', index = 0, frequency = 0, insertedAt = 5\<rparr>)]
   \<and> cache (snd (set_cache
        \<lparr>option = NonExpireOption 3 LFU,
         cache = [(''k1'', \<lparr>expires = None, content = ''a'', index = 0, frequency = 1, insertedAt = 1\<rparr>)],
         timers = [], scheduled = []\<rparr> ''b'' ''k2'' 2 0))
     = [(''k1'', \<lparr>expires = None, content = ''a'', index = 0, frequency = 1, insertedAt = 1\<rparr>),
        (''k2'', \<lparr>expires = None, content = ''b'', index = 0, frequency = 0, insertedAt = 2\<rparr>)]"
proof -
  let ?e1 = "\<lparr>expires = None, content = ''a'', index = 0, frequency = 0, insertedAt = 1\<rparr> :: string CacheEntry"
  let ?e1' = "\<lparr>expires = None, content = ''a'', index = 0, frequency = 1, insertedAt = 1\<rparr> :: string CacheEntry"
  let ?e2 = "\<lparr>expires = None, content = ''b'', index = 0, frequency = 0, insertedAt = 2\<rparr> :: string CacheEntry"
  let ?e3 = "\<lparr>expires = None, content = ''c'', index = 0, frequency = 0, insertedAt = 3\<rparr> :: string CacheEntry"
  let ?s0 = "\<lparr>option = NonExpireOption 3 LFU,
              cache = [(''k1'', ?e1), (''k2'', ?e2), (''k3'', ?e3)], timers = [], scheduled = []\<rparr>"
  let ?s1 = "\<lparr>option = NonExpireOption 3 LFU,
              cache = [(''k1'', ?e1'), (''k2'', ?e2), (''k3'', ?e3)], timers = [], scheduled = []\<rparr>"
  let ?s2 = "\<lparr>option = NonExpireOption 3 LFU,
              cache = [(''k1'', ?e1')], timers = [], scheduled = []\<rparr>"
  have o0: "option ?s0 = NonExpireOption 3 LFU" and o1: "option ?s1 = NonExpireOption 3 LFU"
    and o2: "option ?s2 = NonExpireOption 3 LFU"
    by simp_all
  have d0: "distinct (Map_keys (cache ?s0))" and d1: "distinct (Map_keys (cache ?s1))"
    and d2: "distinct (Map_keys (cache ?s2))"
    by (simp_all add: Map_keys_def)
  have g0: "Map_get (cache ?s0) ''k1'' = Some ?e1" by simp
  have g: "get ?s0 ''k1'' 4 = (Some ''a'', ?s1)"
    using lfu_counts_reads_and_least_is_evicted
            [OF o0 d0, of "''k1''" 4, THEN conjunct1, rule_format, OF g0]
    by simp
  have room: "(Map_size (cache ?s2) < 3 \<or> cache ?s2 = []) \<and> ''k2'' \<notin> set (Map_keys (cache ?s2))"
    by (simp add: Map_keys_def Map_size_def)
  have b: "cache (snd (set_cache ?s2 ''b'' ''k2'' 2 0)) = [(''k1'', ?e1'), (''k2'', ?e2)]"
    using lfu_counts_reads_and_least_is_evicted
            [OF o2 d2, of _ _ "''k2''" "''b''" 2 0, THEN conjunct2, THEN conjunct1, THEN mp, OF room]
    by simp
  have full: "cache ?s1 \<noteq> [] \<and> Map_size (cache ?s1) \<ge> 3 \<and> [] \<notin> set (Map_keys (cache ?s1))
            \<and> ''k4'' \<notin> set (Map_keys (cache ?s1))"
    by (simp add: Map_keys_def Map_size_def)
  obtain pre k e post where v: "cache ?s1 = pre @ (k, e) # post"
      "\<forall>p \<in> set pre. frequency e < frequency (snd p)"
      "\<forall>p \<in> set post. frequency e \<le> frequency (snd p)"
      "cache (snd (set_cache ?s1 ''d'' ''k4'' 5 0)) =
         pre @ post @ [(''k4'', \<lparr>expires = None, content = ''d'', index = 0, frequency = 0,
                                 insertedAt = 5\<rparr>)]"
    using lfu_counts_reads_and_least_is_evicted
            [OF o1 d1, of _ _ "''k4''" "''d''" 5 0, THEN conjunct2, THEN conjunct2, THEN mp, OF full]
    by blast
  have "pre @ (k, e) # post = [(''k1'', ?e1'), (''k2'', ?e2), (''k3'', ?e3)]"
    using v(1) by simp
  from split3 [OF this] v(2,3) have "pre = [(''k1'', ?e1')] \<and> post = [(''k3'', ?e3)]"
    by auto
  then have "cache (snd (set_cache ?s1 ''d'' ''k4'' 5 0)) =
      [(''k1'', ?e1'), (''k3'', ?e3),
       (''k4'', \<lparr>expires = None, content = ''d'', index = 0, frequency = 0, insertedAt = 5\<rparr>)]"
    using v(4) by simp
  with g b show ?thesis by (intro conjI)
qed

text \<open>
  C8. Under EXPIRE \<^verbatim>\<open>size()\<close> deletes every entry whose \<open>expires\<close> has passed, drops its
  handle from \<^verbatim>\<open>timers\<close> and cancels its timeout, and returns the number of entries
  left, none of which has lapsed. Under LRU, LFU and FIFO it returns the number of entries
  and changes nothing. Handles are those \<^verbatim>\<open>setTimeout\<close> returns, which are never \<open>0\<close>.
\<close>

theorem size_sweeps_lapsed_entries:
  fixes s :: "'v cache_state"
  shows "(is_expire (option s) \<and> distinct (Map_keys (cache s))
            \<and> (\<forall>k. Map_get (timers s) k \<noteq> Some 0) \<longrightarrow>
          cache (snd (size_cache s now)) = filter (\<lambda>(k, e). \<not> lapsed now e) (cache s)
          \<and> fst (size_cache s now) = Map_size (cache (snd (size_cache s now)))
          \<and> (\<forall>p \<in> set (cache (snd (size_cache s now))). \<not> lapsed now (snd p))
          \<and> (\<forall>p \<in> set (cache s). lapsed now (snd p) \<longrightarrow>
                Map_get (timers (snd (size_cache s now))) (fst p) = None
                \<and> (\<forall>t. Map_get (timers s) (fst p) = Some t \<longrightarrow>
                       t \<notin> fst ` set (scheduled (snd (size_cache s now))))))
       \<and> (\<not> is_expire (option s) \<longrightarrow> size_cache s now = (Map_size (cache s), s))"
proof (intro conjI impI)
  assume a: "is_expire (option s) \<and> distinct (Map_keys (cache s))
            \<and> (\<forall>k. Map_get (timers s) k \<noteq> Some 0)"
  let ?s' = "fold (sweep_entry now) (cache s) s"
  have sz: "size_cache s now = (Map_size (cache ?s'), ?s')"
    using a by (simp add: size_cache_def Let_def)
  have d: "distinct (map fst (cache s))" using a by (simp add: Map_keys_def)
  have nz: "\<forall>k. Map_get (timers s) k \<noteq> Some 0" using a by simp
  have c: "cache ?s' = filter (\<lambda>(k, e). \<not> lapsed now e) (cache s)"
    unfolding sweep_cache
    by (rule filter_cong) (auto simp: lapsed_keys_distinct [OF d])
  show "cache (snd (size_cache s now)) = filter (\<lambda>(k, e). \<not> lapsed now e) (cache s)"
    unfolding sz using c by simp
  show "fst (size_cache s now) = Map_size (cache (snd (size_cache s now)))"
    unfolding sz by simp
  show "\<forall>p \<in> set (cache (snd (size_cache s now))). \<not> lapsed now (snd p)"
    unfolding sz using c by auto
  show "\<forall>p \<in> set (cache s). lapsed now (snd p) \<longrightarrow>
                Map_get (timers (snd (size_cache s now))) (fst p) = None
                \<and> (\<forall>t. Map_get (timers s) (fst p) = Some t \<longrightarrow>
                       t \<notin> fst ` set (scheduled (snd (size_cache s now))))"
  proof (intro ballI impI conjI allI)
    fix p t assume p: "p \<in> set (cache s)" "lapsed now (snd p)"
    then have k: "fst p \<in> lapsed_keys now (cache s)" by (auto simp: lapsed_keys_def)
    show "Map_get (timers (snd (size_cache s now))) (fst p) = None"
      unfolding sz using sweep_timers [OF nz, of now "cache s" "fst p"] k by simp
    assume "Map_get (timers s) (fst p) = Some t"
    from sweep_scheduled [OF nz k this]
    show "t \<notin> fst ` set (scheduled (snd (size_cache s now)))"
      unfolding sz by simp
  qed
next
  assume "\<not> is_expire (option s)"
  then show "size_cache s now = (Map_size (cache s), s)" by (rule size_cache_bounded)
qed

theorem size_sweeps_lapsed_entries_witness:
  "fst (size_cache
     \<lparr>option = ExpireOption 50,
      cache = [(''k1'', \<lparr>expires = Some 150, content = ''a'', index = 0, frequency = 0, insertedAt = 100\<rparr>),
               (''k2'', \<lparr>expires = Some 300, content = ''b'', index = 0, frequency = 0, insertedAt = 250\<rparr>)],
      timers = [(''k1'', 7), (''k2'', 8)], scheduled = [(7, ''k1''), (8, ''k2'')]\<rparr> 200) = 1
   \<and> cache (snd (size_cache
     \<lparr>option = ExpireOption 50,
      cache = [(''k1'', \<lparr>expires = Some 150, content = ''a'', index = 0, frequency = 0, insertedAt = 100\<rparr>),
               (''k2'', \<lparr>expires = Some 300, content = ''b'', index = 0, frequency = 0, insertedAt = 250\<rparr>)],
      timers = [(''k1'', 7), (''k2'', 8)], scheduled = [(7, ''k1''), (8, ''k2'')]\<rparr> 200))
     = [(''k2'', \<lparr>expires = Some 300, content = ''b'', index = 0, frequency = 0, insertedAt = 250\<rparr>)]
   \<and> Map_get (timers (snd (size_cache
     \<lparr>option = ExpireOption 50,
      cache = [(''k1'', \<lparr>expires = Some 150, content = ''a'', index = 0, frequency = 0, insertedAt = 100\<rparr>),
               (''k2'', \<lparr>expires = Some 300, content = ''b'', index = 0, frequency = 0, insertedAt = 250\<rparr>)],
      timers = [(''k1'', 7), (''k2'', 8)], scheduled = [(7, ''k1''), (8, ''k2'')]\<rparr> 200))) ''k1'' = None
   \<and> 7 \<notin> fst ` set (scheduled (snd (size_cache
     \<lparr>option = ExpireOption 50,
      cache = [(''k1'', \<lparr>expires = Some 150, content = ''a'', index = 0, frequency = 0, insertedAt = 100\<rparr>),
               (''k2'', \<lparr>expires = Some 300, content = ''b'', index = 0, frequency = 0, insertedAt = 250\<rparr>)],
      timers = [(''k1'', 7), (''k2'', 8)], scheduled = [(7, ''k1''), (8, ''k2'')]\<rparr> 200)))"
proof -
  let ?e1 = "\<lparr>expires = Some 150, content = ''a'', index = 0, frequency = 0, insertedAt = 100\<rparr> :: string CacheEntry"
  let ?e2 = "\<lparr>expires = Some 300, content = ''b'', index = 0, frequency = 0, insertedAt = 250\<rparr> :: string CacheEntry"
  let ?s = "\<lparr>option = ExpireOption 50, cache = [(''k1'', ?e1), (''k2'', ?e2)],
             timers = [(''k1'', 7), (''k2'', 8)], scheduled = [(7, ''k1''), (8, ''k2'')]\<rparr>"
  have h: "is_expire (option ?s) \<and> distinct (Map_keys (cache ?s))
            \<and> (\<forall>k. Map_get (timers ?s) k \<noteq> Some 0)"
    by (simp add: is_expire_def Map_keys_def)
  note w = size_sweeps_lapsed_entries [of ?s 200, THEN conjunct1, THEN mp, OF h]
  have c: "cache (snd (size_cache ?s 200)) = [(''k2'', ?e2)]"
    using w [THEN conjunct1] by (simp add: lapsed_def)
  have n: "fst (size_cache ?s 200) = 1"
    using w [THEN conjunct2, THEN conjunct1] unfolding c by (simp add: Map_size_def)
  have m: "(''k1'', ?e1) \<in> set (cache ?s)" by simp
  have l: "lapsed 200 (snd (''k1'', ?e1))" by (simp add: lapsed_def)
  note p = w [THEN conjunct2, THEN conjunct2, THEN conjunct2, THEN bspec, OF m, THEN mp, OF l]
  have t: "Map_get (timers (snd (size_cache ?s 200))) ''k1'' = None"
    using p [THEN conjunct1] by simp
  have t7: "Map_get (timers ?s) (fst (''k1'', ?e1)) = Some 7" by simp
  have sc: "7 \<notin> fst ` set (scheduled (snd (size_cache ?s 200)))"
    by (rule p [THEN conjunct2, rule_format, OF t7])
  from n c t sc show ?thesis by (intro conjI)
qed

end
